theory Spec2Isabelle
  imports Main "HOL-Library.AList" "HOL-Library.More_List" "HOL-Library.Product_Lexorder"
begin

section \<open>The data of \<^verbatim>\<open>deps/graph.go\<close>\<close>

text \<open>
  \<^verbatim>\<open>type LibraryName string\<close>.
\<close>

type_synonym LibraryName = string

text \<open>
  A \<^verbatim>\<open>*semver.Version\<close>. The type \<^verbatim>\<open>semver.Version\<close> belongs to the library
  \<^verbatim>\<open>github.com/blang/semver\<close>; the resolver only compares versions (\<^verbatim>\<open>Compare\<close>), so
  the model takes the precedence of semantic versions as a linear order on a type \<open>'v\<close>
  of version values. The resolver never writes to a version, so a pointer determines the
  version it points to: \<open>VerPtr a v\<close> is the address \<open>a\<close> together with the version \<open>v\<close>
  stored there. Go's \<^verbatim>\<open>==\<close> on two such pointers (the key comparison of
  \<^verbatim>\<open>map[*semver.Version]bool\<close>) is equality of these values; \<^verbatim>\<open>Compare\<close> reads
  \<open>deref\<close> only, so two pointers with different addresses may well compare equal.
  The index holds no \<^verbatim>\<open>nil\<close> version (\<^verbatim>\<open>Compare\<close> would panic on one), and the type has
  none.
\<close>

datatype 'v verptr = VerPtr (addr: nat) (deref: 'v)

definition Compare :: "('v::linorder) verptr \<Rightarrow> 'v verptr \<Rightarrow> int" where
  "Compare v o' = (if deref v < deref o' then - 1 else if deref v = deref o' then 0 else 1)"

record 'v uniqueLibrary =
  name :: LibraryName
  ver :: "'v verptr"

record 'v dependency =
  library :: "'v uniqueLibrary"
  dependsOn :: "'v uniqueLibrary"

record 'v LibraryIndex =
  libraries :: "'v dependency list"

subsection \<open>The store of maps and version lists\<close>

text \<open>
  \<^verbatim>\<open>Configuration\<close> and \<^verbatim>\<open>Available\<close> are Go maps and \<^verbatim>\<open>*VersionList\<close> is a pointer to a
  slice: all three are references to objects that several variables may share and that
  \<^verbatim>\<open>m[k] = v\<close>, \<^verbatim>\<open>delete(m, k)\<close> and \<^verbatim>\<open>vl.Add(v)\<close> change in place. The store keeps the
  objects of each kind in a list; the address of an object is its position, and a new
  object is put at the end. A map object is the list of its entries, with one entry for
  each key.

  A variable of map type holds \<open>None\<close> (Go's \<^verbatim>\<open>nil\<close> map: it reads as the empty map) or
  \<open>Some a\<close>, the map object at address \<open>a\<close>. No run of the program makes an address
  beyond the store; the model is total there: such an address reads as an object
  without entries, and a write to it changes nothing.
\<close>

record 'v heap =
  confObjs :: "(LibraryName \<times> 'v verptr) list list"
  availObjs :: "(LibraryName \<times> nat) list list"
  vlistObjs :: "'v verptr list list"

type_synonym Configuration = "nat option"
type_synonym Available = "nat option"

definition emptyHeap :: "'v heap" where
  "emptyHeap = \<lparr>confObjs = [], availObjs = [], vlistObjs = []\<rparr>"

definition confEntries :: "'v heap \<Rightarrow> Configuration \<Rightarrow> (LibraryName \<times> 'v verptr) list" where
  "confEntries h conf = (case conf of None \<Rightarrow> [] | Some a \<Rightarrow> nth_default [] (confObjs h) a)"

definition availEntries :: "'v heap \<Rightarrow> Available \<Rightarrow> (LibraryName \<times> nat) list" where
  "availEntries h a = (case a of None \<Rightarrow> [] | Some p \<Rightarrow> nth_default [] (availObjs h) p)"

definition vlistAt :: "'v heap \<Rightarrow> nat \<Rightarrow> 'v verptr list" where
  "vlistAt h p = nth_default [] (vlistObjs h) p"

text \<open>\<^verbatim>\<open>Configuration{}\<close> and \<^verbatim>\<open>Available{}\<close>: a new, empty map object.\<close>

definition newConf :: "'v heap \<Rightarrow> 'v heap \<times> nat" where
  "newConf h = (h\<lparr>confObjs := confObjs h @ [[]]\<rparr>, length (confObjs h))"

definition newAvail :: "'v heap \<Rightarrow> 'v heap \<times> nat" where
  "newAvail h = (h\<lparr>availObjs := availObjs h @ [[]]\<rparr>, length (availObjs h))"

text \<open>A write to the object at address \<open>a\<close>: the object becomes \<open>f\<close> of what it was.\<close>

definition modifyAt :: "nat \<Rightarrow> ('a list \<Rightarrow> 'a list) \<Rightarrow> 'a list list \<Rightarrow> 'a list list" where
  "modifyAt a f objs = objs[a := f (nth_default [] objs a)]"

text \<open>\<^verbatim>\<open>m[k] = v\<close> and \<^verbatim>\<open>delete(m, k)\<close> on the map object at address \<open>a\<close>.\<close>

definition confPut :: "'v heap \<Rightarrow> nat \<Rightarrow> LibraryName \<Rightarrow> 'v verptr \<Rightarrow> 'v heap" where
  "confPut h a k v = h\<lparr>confObjs := modifyAt a (AList.update k v) (confObjs h)\<rparr>"

definition availPut :: "'v heap \<Rightarrow> nat \<Rightarrow> LibraryName \<Rightarrow> nat \<Rightarrow> 'v heap" where
  "availPut h a k v = h\<lparr>availObjs := modifyAt a (AList.update k v) (availObjs h)\<rparr>"

definition availDelete :: "'v heap \<Rightarrow> nat \<Rightarrow> LibraryName \<Rightarrow> 'v heap" where
  "availDelete h a k = h\<lparr>availObjs := modifyAt a (AList.delete k) (availObjs h)\<rparr>"

text \<open>
  Go leaves open the order in which \<^verbatim>\<open>range\<close> visits the entries of a map, and picks it
  anew for every loop that runs. The model takes the order of one loop from a parameter:
  a rank for every key, the entries being visited by increasing rank (entries of equal
  rank in the order of the entry list). Every order of the entries of one map is the
  order of some rank. Every operation with a \<^verbatim>\<open>range\<close> over a map has one such loop, and
  takes its order as an argument.
\<close>

record 'v rangeOrder =
  nameRank :: "LibraryName \<Rightarrow> nat"
  versionRank :: "'v verptr \<Rightarrow> nat"

definition rangeMap :: "('k \<Rightarrow> nat) \<Rightarrow> ('k \<times> 'a) list \<Rightarrow> ('k \<times> 'a) list" where
  "rangeMap rank m = sort_key (\<lambda>e. rank (fst e)) m"

subsection \<open>Version lists\<close>

text \<open>
  Modelled from the spec: the file that declares \<^verbatim>\<open>VersionList\<close> and its methods
  \<^verbatim>\<open>NewVersionList\<close>, \<^verbatim>\<open>Add\<close>, \<^verbatim>\<open>Len\<close>, \<^verbatim>\<open>Contains\<close>, \<^verbatim>\<open>Intersection\<close> and \<^verbatim>\<open>ReverseSort\<close> is
  missing. \<^verbatim>\<open>graph.go\<close> shows that a \<^verbatim>\<open>VersionList\<close> is a slice of \<^verbatim>\<open>*semver.Version\<close>
  (\<^verbatim>\<open>for _, ver := range *vers\<close>) handled through a pointer. The spec (4.1) gives the
  operations: construct empty; add a version, duplicates by value not being added again;
  length; containment by value equality; intersection, a new set of the versions
  present in both by value equality; descending sort, newest first.
\<close>

definition NewVersionList :: "'v heap \<Rightarrow> 'v heap \<times> nat" where
  "NewVersionList h = (h\<lparr>vlistObjs := vlistObjs h @ [[]]\<rparr>, length (vlistObjs h))"

text \<open>Modelled from the spec: (missing \<^verbatim>\<open>VersionList.Contains\<close>) containment by value equality.\<close>

definition Contains :: "('v::linorder) verptr list \<Rightarrow> 'v verptr \<Rightarrow> bool" where
  "Contains vl v = (list_ex (\<lambda>x. Compare x v = 0) vl)"

text \<open>
  Modelled from the spec: (missing \<^verbatim>\<open>VersionList.Add\<close>) a version whose value the list
  already contains is not added again; a new one goes to the end. \<open>addVersion\<close> is the
  change of the list, \<open>Add\<close> the write to the list at \<open>p\<close>.
\<close>

definition addVersion :: "('v::linorder) verptr \<Rightarrow> 'v verptr list \<Rightarrow> 'v verptr list" where
  "addVersion v vl = (if Contains vl v then vl else vl @ [v])"

definition Add :: "('v::linorder) heap \<Rightarrow> nat \<Rightarrow> 'v verptr \<Rightarrow> 'v heap" where
  "Add h p v = h\<lparr>vlistObjs := modifyAt p (addVersion v) (vlistObjs h)\<rparr>"

text \<open>Modelled from the spec: (missing \<^verbatim>\<open>VersionList.Len\<close>) the length.\<close>

definition Len :: "'v heap \<Rightarrow> nat \<Rightarrow> nat" where
  "Len h p = length (vlistAt h p)"

text \<open>
  Modelled from the spec: (missing \<^verbatim>\<open>VersionList.Intersection\<close>) a new list of the
  versions of the receiver that the other list contains by value.
\<close>

definition Intersection :: "('v::linorder) heap \<Rightarrow> 'v verptr list \<Rightarrow> 'v verptr list \<Rightarrow> 'v heap \<times> nat" where
  "Intersection h vl vl2 =
     (h\<lparr>vlistObjs := vlistObjs h @ [filter (\<lambda>x. Contains vl2 x) vl]\<rparr>, length (vlistObjs h))"

text \<open>
  Modelled from the spec: (missing \<^verbatim>\<open>VersionList.ReverseSort\<close>) sorts the list at \<open>p\<close> in
  place, newest first.
\<close>

definition ReverseSort :: "('v::linorder) heap \<Rightarrow> nat \<Rightarrow> 'v heap" where
  "ReverseSort h p = h\<lparr>vlistObjs := modifyAt p (\<lambda>vl. rev (sort_key deref vl)) (vlistObjs h)\<rparr>"

section \<open>The operations of \<^verbatim>\<open>deps/graph.go\<close>\<close>

subsection \<open>Configuration and Available\<close>

text \<open>
  \<^verbatim>\<open>func (conf Configuration) Clone() Configuration\<close>: a new map object, filled from the
  entries of \<open>conf\<close>. It returns the address of the new object, which is never \<^verbatim>\<open>nil\<close>.
\<close>

definition Configuration_Clone :: "'v rangeOrder \<Rightarrow> 'v heap \<Rightarrow> Configuration \<Rightarrow> 'v heap \<times> nat" where
  "Configuration_Clone ord h conf =
     (let (h1, clone) = newConf h
      in (fold (\<lambda>(k, v) h'. confPut h' clone k v) (rangeMap (nameRank ord) (confEntries h1 conf)) h1,
          clone))"

text \<open>\<^verbatim>\<open>func (a Available) Clone() Available\<close>.\<close>

definition Available_Clone :: "'v rangeOrder \<Rightarrow> 'v heap \<Rightarrow> Available \<Rightarrow> 'v heap \<times> nat" where
  "Available_Clone ord h a =
     (let (h1, clone) = newAvail h
      in (fold (\<lambda>(k, v) h'. availPut h' clone k v) (rangeMap (nameRank ord) (availEntries h1 a)) h1,
          clone))"

text \<open>
  \<^verbatim>\<open>func (a Available) Refine(subset Available) Available\<close>. \<open>RefineBody\<close> is the body of
  its loop, for the entry \<open>(k, v)\<close> of the receiver; the loop runs over the entries of
  the receiver \<open>a\<close> only.
\<close>

definition RefineBody :: "nat \<Rightarrow> Available \<Rightarrow> LibraryName \<times> nat \<Rightarrow> ('v::linorder) heap \<Rightarrow> 'v heap" where
  "RefineBody ret subset' e h =
     (case e of (k, v) \<Rightarrow>
        (case map_of (availEntries h subset') k of
           None \<Rightarrow> availPut h ret k v
         | Some v2 \<Rightarrow>
             (let (h', i) = Intersection h (vlistAt h v) (vlistAt h v2)
              in availPut h' ret k i)))"

definition Refine :: "('v::linorder) rangeOrder \<Rightarrow> 'v heap \<Rightarrow> Available \<Rightarrow> Available \<Rightarrow> 'v heap \<times> nat" where
  "Refine ord h a subset' =
     (let (h1, ret) = newAvail h
      in (fold (RefineBody ret subset') (rangeMap (nameRank ord) (availEntries h1 a)) h1, ret))"

text \<open>\<^verbatim>\<open>func (a Available) Empty() []LibraryName\<close>.\<close>

definition Empty :: "'v rangeOrder \<Rightarrow> 'v heap \<Rightarrow> Available \<Rightarrow> LibraryName list" where
  "Empty ord h a =
     map fst (filter (\<lambda>(k, v). Len h v = 0) (rangeMap (nameRank ord) (availEntries h a)))"

subsection \<open>The library index\<close>

definition MakeLibraryIndex :: "'v LibraryIndex" where
  "MakeLibraryIndex = \<lparr>libraries = []\<rparr>"

definition AddDependency ::
  "'v LibraryIndex \<Rightarrow> LibraryName \<Rightarrow> 'v verptr \<Rightarrow> LibraryName \<Rightarrow> 'v verptr \<Rightarrow> 'v LibraryIndex" where
  "AddDependency index lib libver deplib depver =
     (let library' = \<lparr>name = lib, ver = libver\<rparr>;
          dependsOn' = \<lparr>name = deplib, ver = depver\<rparr>;
          dep = \<lparr>library = library', dependsOn = dependsOn'\<rparr>
      in index\<lparr>libraries := libraries index @ [dep]\<rparr>)"

text \<open>
  \<^verbatim>\<open>func (index LibraryIndex) Versions(lib LibraryName) *VersionList\<close>. The map \<^verbatim>\<open>present\<close>
  is local to the call and keyed by pointers; the model keeps it as a list of entries.
  \<open>presentVersions\<close> is the first loop, which fills \<^verbatim>\<open>present\<close>.
\<close>

definition presentVersions :: "'v LibraryIndex \<Rightarrow> LibraryName \<Rightarrow> ('v verptr \<times> bool) list" where
  "presentVersions index lib =
     fold (\<lambda>dep present. if name (library dep) = lib
                           then AList.update (ver (library dep)) True present else present)
          (libraries index) []"

definition Versions :: "('v::linorder) rangeOrder \<Rightarrow> 'v LibraryIndex \<Rightarrow> 'v heap \<Rightarrow> LibraryName \<Rightarrow> 'v heap \<times> nat" where
  "Versions ord index h lib =
     (let present = presentVersions index lib;
          (h1, vl) = NewVersionList h;
          h2 = fold (\<lambda>(v, _) h'. Add h' vl v) (rangeMap (versionRank ord) present) h1;
          h3 = ReverseSort h2 vl
      in (h3, vl))"

text \<open>
  \<^verbatim>\<open>func (index LibraryIndex) Dependencies(lib LibraryName, ver *semver.Version) Available\<close>.
  \<open>DependenciesBody\<close> is the body of its loop, for the edge \<open>dep\<close>.
\<close>

definition DependenciesBody ::
  "nat \<Rightarrow> LibraryName \<Rightarrow> ('v::linorder) verptr \<Rightarrow> 'v dependency \<Rightarrow> 'v heap \<Rightarrow> 'v heap" where
  "DependenciesBody depvers lib v dep h =
     (if name (library dep) = lib \<and> Compare v (ver (library dep)) = 0
      then (let (h', dver) =
                  (case map_of (availEntries h (Some depvers)) (name (dependsOn dep)) of
                     Some dver \<Rightarrow> (h, dver)
                   | None \<Rightarrow>
                       (let (h1, dver) = NewVersionList h
                        in (availPut h1 depvers (name (dependsOn dep)) dver, dver)))
            in Add h' dver (ver (dependsOn dep)))
      else h)"

definition Dependencies :: "('v::linorder) LibraryIndex \<Rightarrow> 'v heap \<Rightarrow> LibraryName \<Rightarrow> 'v verptr \<Rightarrow> 'v heap \<times> nat" where
  "Dependencies index h lib v =
     (let (h0, depvers) = newAvail h
      in (fold (DependenciesBody depvers lib v) (libraries index) h0, depvers))"

subsection \<open>The search\<close>

text \<open>
  The errors of \<^verbatim>\<open>findFirst\<close> are made by \<^verbatim>\<open>fmt.Errorf\<close>: an error is its message.
  \<^verbatim>\<open>%s\<close> prints a \<^verbatim>\<open>LibraryName\<close> as it is; \<^verbatim>\<open>%v\<close> prints a \<^verbatim>\<open>[]LibraryName\<close> as its
  elements between brackets, with one space between two elements.
\<close>

type_synonym error = string

fun joinNames :: "LibraryName list \<Rightarrow> string" where
  "joinNames [] = []"
| "joinNames [n] = n"
| "joinNames (n # ns) = n @ '' '' @ joinNames ns"

definition formatNames :: "LibraryName list \<Rightarrow> string" where
  "formatNames ns = ''['' @ joinNames ns @ '']''"

text \<open>
  What one activation of \<^verbatim>\<open>findFirst\<close> does: it returns (\<open>Return\<close>, with the pair of
  results: \<open>Inl\<close> an error, the configuration being \<^verbatim>\<open>nil\<close>, or \<open>Inr\<close> the configuration,
  the error being \<^verbatim>\<open>nil\<close>), or it ends in \<^verbatim>\<open>return index.findFirst(...)\<close> (\<open>Recurse\<close>, with
  the arguments of that call).
\<close>

datatype 'v outcome =
  Return "'v heap" "error + Configuration"
| Recurse "'v heap" nat nat "LibraryName list"

text \<open>
  The loops over a map that one activation of \<^verbatim>\<open>findFirst\<close> runs, each at most once
  (the body of the loop over \<^verbatim>\<open>*vers\<close> is run for one version at most, see below), and
  the order of each: the loop of \<^verbatim>\<open>Versions\<close> over \<^verbatim>\<open>present\<close>; the loop of \<^verbatim>\<open>Clone\<close> over
  \<^verbatim>\<open>mapped\<close>; \<^verbatim>\<open>for d, vl := range depvers\<close>, which checks the versions already chosen;
  \<^verbatim>\<open>for l, _ := range mapped\<close>, which deletes from \<^verbatim>\<open>depvers\<close>; \<^verbatim>\<open>for n1, _ := range depvers\<close>,
  which collects \<^verbatim>\<open>newlibs\<close>; the loop of \<^verbatim>\<open>Refine\<close> over \<^verbatim>\<open>avail\<close>; the loop of \<^verbatim>\<open>Empty\<close> over
  \<^verbatim>\<open>intersection\<close>. The orders are independent of each other. A run of \<^verbatim>\<open>findFirst\<close> has
  such orders for every activation: \<open>ords k\<close> are those of the activation at depth \<open>k\<close>.
\<close>

record 'v loopOrders =
  versionsOrder :: "'v rangeOrder"
  cloneOrder :: "'v rangeOrder"
  checkOrder :: "'v rangeOrder"
  retireOrder :: "'v rangeOrder"
  newlibsOrder :: "'v rangeOrder"
  refineOrder :: "'v rangeOrder"
  emptyOrder :: "'v rangeOrder"

text \<open>
  The body of the loop \<^verbatim>\<open>for _, ver := range *vers\<close>, for the library \<open>lib\<close>, the rest of
  the worklist \<open>rest\<close> (after \<^verbatim>\<open>rest = rest[1:]\<close>) and the version \<open>v\<close>. The calls of
  \<^verbatim>\<open>log.Printf\<close> under \<^verbatim>\<open>verbose\<close> are left out.
\<close>

definition tryVersion ::
  "('v::linorder) loopOrders \<Rightarrow> 'v LibraryIndex \<Rightarrow> 'v heap \<Rightarrow> Configuration \<Rightarrow> Available \<Rightarrow>
     LibraryName \<Rightarrow> LibraryName list \<Rightarrow> 'v verptr \<Rightarrow> 'v outcome" where
  "tryVersion os index h mapped avail lib rest v =
     (let (h1, config) = Configuration_Clone (cloneOrder os) h mapped;
          (h2, depvers) = Dependencies index h1 lib v
      in case find (\<lambda>(d, vl). case map_of (confEntries h2 mapped) d of
                                 None \<Rightarrow> False
                               | Some choice \<Rightarrow> \<not> Contains (vlistAt h2 vl) choice)
                   (rangeMap (nameRank (checkOrder os)) (availEntries h2 (Some depvers))) of
           Some (d, vl) \<Rightarrow> Return h2 (Inl (''No compatible version of '' @ d))
         | None \<Rightarrow>
             (let h3 = fold (\<lambda>(l, _) h'. availDelete h' depvers l)
                            (rangeMap (nameRank (retireOrder os)) (confEntries h2 mapped)) h2;
                  newlibs = filter (\<lambda>n1. \<not> list_ex (\<lambda>n2. n1 = n2) rest)
                                   (map fst (rangeMap (nameRank (newlibsOrder os))
                                                      (availEntries h3 (Some depvers))));
                  (h4, intersection) = Refine (refineOrder os) h3 avail (Some depvers);
                  h5 = availDelete h4 intersection lib;
                  empty = Empty (emptyOrder os) h5 (Some intersection)
              in if length empty > 0
                 then Return h5 (Inl (''No compatible versions of: '' @ formatNames empty))
                 else (let h6 = confPut h5 config lib v
                       in Recurse h6 config intersection (newlibs @ rest))))"

text \<open>
  The body of \<^verbatim>\<open>findFirst\<close>. Every path through the body of the loop over \<^verbatim>\<open>*vers\<close> ends
  in a \<^verbatim>\<open>return\<close>, so the loop visits the first version only; the \<^verbatim>\<open>return\<close> after the
  loop is reached when \<^verbatim>\<open>*vers\<close> is empty.
\<close>

definition findFirstBody ::
  "('v::linorder) loopOrders \<Rightarrow> 'v LibraryIndex \<Rightarrow> 'v heap \<Rightarrow> Configuration \<Rightarrow> Available \<Rightarrow>
     LibraryName list \<Rightarrow> 'v outcome" where
  "findFirstBody os index h mapped avail rest =
     (case rest of
        [] \<Rightarrow> Return h (Inr mapped)
      | lib # rest' \<Rightarrow>
          (let (h1, vers) = (case map_of (availEntries h avail) lib of
                               Some vers \<Rightarrow> (h, vers)
                             | None \<Rightarrow> Versions (versionsOrder os) index h lib)
           in case vlistAt h1 vers of
                [] \<Rightarrow> Return h1 (Inl (''No compatible versions of '' @ lib @ '' found''))
              | v # _ \<Rightarrow> tryVersion os index h1 mapped avail lib rest' v))"

text \<open>
  \<^verbatim>\<open>func (index LibraryIndex) findFirst(mapped Configuration, verbose bool, avail Available,
  rest ...LibraryName) (Configuration, error)\<close>: the body, and the call of \<^verbatim>\<open>findFirst\<close>
  that ends it, if any. The result is the store on return with the pair of results.
  The activation takes the orders of its loops from \<open>ords 0\<close>, and the call inside it
  goes on with the orders that follow.
\<close>

function findFirst ::
  "(nat \<Rightarrow> ('v::linorder) loopOrders) \<Rightarrow> 'v LibraryIndex \<Rightarrow> 'v heap \<Rightarrow> Configuration \<Rightarrow> Available \<Rightarrow>
     LibraryName list \<Rightarrow> 'v heap \<times> (error + Configuration)" where
  "findFirst ords index h mapped avail rest =
     (case findFirstBody (ords 0) index h mapped avail rest of
        Return h' r \<Rightarrow> (h', r)
      | Recurse h' config intersection newlibs \<Rightarrow>
          findFirst (\<lambda>k. ords (Suc k)) index h' (Some config) (Some intersection) newlibs)"
  by pat_completeness auto

text \<open>
  The number of calls of \<^verbatim>\<open>findFirst\<close> nested inside the call with these arguments: as
  many as libraries are taken from the worklist and given a version.
\<close>

function findFirstDepth ::
  "(nat \<Rightarrow> ('v::linorder) loopOrders) \<Rightarrow> 'v LibraryIndex \<Rightarrow> 'v heap \<Rightarrow> Configuration \<Rightarrow> Available \<Rightarrow>
     LibraryName list \<Rightarrow> nat" where
  "findFirstDepth ords index h mapped avail rest =
     (case findFirstBody (ords 0) index h mapped avail rest of
        Return h' r \<Rightarrow> 0
      | Recurse h' config intersection newlibs \<Rightarrow>
          Suc (findFirstDepth (\<lambda>k. ords (Suc k)) index h' (Some config) (Some intersection) newlibs))"
  by pat_completeness auto

text \<open>
  \<^verbatim>\<open>func (index LibraryIndex) Resolve(libraries ...LibraryName) (config Configuration, err
  error)\<close>: the named result \<^verbatim>\<open>config\<close> is \<^verbatim>\<open>nil\<close> when it is passed on, and \<^verbatim>\<open>Available{}\<close>
  is a new map.
\<close>

definition Resolve ::
  "(nat \<Rightarrow> ('v::linorder) loopOrders) \<Rightarrow> 'v LibraryIndex \<Rightarrow> 'v heap \<Rightarrow> LibraryName list \<Rightarrow>
     'v heap \<times> (error + Configuration)" where
  "Resolve ords index h libraries' =
     (let (h1, avail) = newAvail h in findFirst ords index h1 None (Some avail) libraries')"

section \<open>Notions of the statements and of the proofs\<close>

text \<open>
  A store \<open>h'\<close> extends \<open>h\<close> when every object of \<open>h\<close> is in \<open>h'\<close> at the same address and
  unchanged: whatever happened between the two only made new objects, or wrote to them.
\<close>

definition heapExtends :: "'v heap \<Rightarrow> 'v heap \<Rightarrow> bool" where
  "heapExtends h h' \<longleftrightarrow>
     take (length (confObjs h)) (confObjs h') = confObjs h \<and>
     take (length (availObjs h)) (availObjs h') = availObjs h \<and>
     take (length (vlistObjs h)) (vlistObjs h') = vlistObjs h"

text \<open>
  The edges from the library \<open>lib\<close> at a version equal in value to \<open>v\<close>; the names they
  lead to; the values of the versions of \<open>d\<close> they lead to.
\<close>

definition matches :: "LibraryName \<Rightarrow> ('v::linorder) verptr \<Rightarrow> 'v dependency \<Rightarrow> bool" where
  "matches lib v dep \<longleftrightarrow> name (library dep) = lib \<and> deref (ver (library dep)) = deref v"

definition requiredNames :: "LibraryName \<Rightarrow> ('v::linorder) verptr \<Rightarrow> 'v dependency list \<Rightarrow> LibraryName set" where
  "requiredNames lib v es = set (map (\<lambda>e. name (dependsOn e)) (filter (matches lib v) es))"

definition requiredVersions ::
  "LibraryName \<Rightarrow> ('v::linorder) verptr \<Rightarrow> 'v dependency list \<Rightarrow> LibraryName \<Rightarrow> 'v set" where
  "requiredVersions lib v es d =
     set (map (\<lambda>e. deref (ver (dependsOn e)))
              (filter (\<lambda>e. matches lib v e \<and> name (dependsOn e) = d) es))"

text \<open>The names that are the target of an edge, and the names a configuration binds.\<close>

definition depNames :: "'v LibraryIndex \<Rightarrow> LibraryName set" where
  "depNames index = set (map (\<lambda>e. name (dependsOn e)) (libraries index))"

definition confKeys :: "'v heap \<Rightarrow> Configuration \<Rightarrow> LibraryName set" where
  "confKeys h conf = set (map fst (confEntries h conf))"

text \<open>
  The measure of the recursion of \<^verbatim>\<open>findFirst\<close>: the length of the worklist, and for
  every target of an edge that has no version yet, one if it is on the worklist and
  two if it is not.
\<close>

definition pending :: "'v LibraryIndex \<Rightarrow> 'v heap \<Rightarrow> Configuration \<Rightarrow> LibraryName list \<Rightarrow> nat" where
  "pending index h mapped rest =
     length rest + 2 * card (depNames index - confKeys h mapped - set rest)
       + card (depNames index \<inter> set rest - confKeys h mapped)"

text \<open>The store in which one activation of \<^verbatim>\<open>findFirst\<close> ends.\<close>

definition outcomeHeap :: "'v outcome \<Rightarrow> 'v heap" where
  "outcomeHeap out = (case out of Return h r \<Rightarrow> h | Recurse h c i n \<Rightarrow> h)"

text \<open>
  The state of the loop of \<^verbatim>\<open>Dependencies\<close> after the edges \<open>es\<close>, and of the loop of
  \<^verbatim>\<open>Refine\<close>, both entered with the store \<open>h\<close>.
\<close>

definition depInv ::
  "('v::linorder) heap \<Rightarrow> LibraryName \<Rightarrow> 'v verptr \<Rightarrow> 'v dependency list \<Rightarrow> 'v heap \<Rightarrow> bool" where
  "depInv h lib v es h' \<longleftrightarrow>
     confObjs h' = confObjs h \<and>
     take (length (vlistObjs h)) (vlistObjs h') = vlistObjs h \<and>
     (let dv = availEntries h' (Some (length (availObjs h))) in
        availObjs h' = availObjs h @ [dv] \<and>
        distinct (map fst dv) \<and> distinct (map snd dv) \<and>
        fst ` set dv = requiredNames lib v es \<and>
        (\<forall>k p. (k, p) \<in> set dv \<longrightarrow>
            length (vlistObjs h) \<le> p \<and> p < length (vlistObjs h') \<and>
            deref ` set (vlistObjs h' ! p) = requiredVersions lib v es k))"

definition refInv :: "'v heap \<Rightarrow> 'v heap \<Rightarrow> bool" where
  "refInv h h' \<longleftrightarrow>
     confObjs h' = confObjs h \<and>
     length (availObjs h') = Suc (length (availObjs h)) \<and>
     take (length (availObjs h)) (availObjs h') = availObjs h \<and>
     take (length (vlistObjs h)) (vlistObjs h') = vlistObjs h"

text \<open>The versions at the source of the edges from \<open>lib\<close>, in the order of the edges.\<close>

definition sourceVersions :: "'v LibraryIndex \<Rightarrow> LibraryName \<Rightarrow> 'v verptr list" where
  "sourceVersions index lib =
     map (\<lambda>e. ver (library e)) (filter (\<lambda>e. name (library e) = lib) (libraries index))"

text \<open>A variable of type \<^verbatim>\<open>Available\<close> is \<^verbatim>\<open>nil\<close> or holds a map of the store.\<close>

definition validAvail :: "'v heap \<Rightarrow> Available \<Rightarrow> bool" where
  "validAvail h avail = (case avail of None \<Rightarrow> True | Some a \<Rightarrow> a < length (availObjs h))"

text \<open>
  The invariant of a complete assignment (spec, section 3), for the entries \<open>asg\<close> of a
  configuration: for every edge from a library at the version chosen for it to a
  library that has a version too, the version chosen for the target is, in value, one
  of those the edges from that source lead to.
\<close>

definition completeAssignment :: "('v::linorder) LibraryIndex \<Rightarrow> (LibraryName \<times> 'v verptr) list \<Rightarrow> bool" where
  "completeAssignment index asg =
     list_all (\<lambda>e. case map_of asg (name (library e)) of
                       None \<Rightarrow> True
                     | Some v \<Rightarrow>
                         (case map_of asg (name (dependsOn e)) of
                            None \<Rightarrow> True
                          | Some w \<Rightarrow>
                              (if deref v = deref (ver (library e))
                               then deref w \<in> requiredVersions (name (library e)) v
                                                (libraries index) (name (dependsOn e))
                               else True)))
              (libraries index)"

section \<open>Examples\<close>

text \<open>
  Versions are triples (major, minor, patch) in the examples, in their lexicographic
  order; \<open>ord0\<close> lets \<^verbatim>\<open>range\<close> visit the entries of a map in the order of its entry list,
  \<open>loops0\<close> does so in every loop of an activation and \<open>ords0\<close> in every activation.
  In \<open>idxDup\<close> three edges leave \<open>X\<close>: two from version 1.0.0, held by two objects, to
  the versions 1.0.0 and 2.0.0 of \<open>Y\<close>, and one from version 2.0.0.
\<close>

definition ord0 :: "(nat \<times> nat \<times> nat) rangeOrder" where
  "ord0 = \<lparr>nameRank = (\<lambda>_. 0), versionRank = (\<lambda>_. 0)\<rparr>"

definition loops0 :: "(nat \<times> nat \<times> nat) loopOrders" where
  "loops0 = \<lparr>versionsOrder = ord0, cloneOrder = ord0, checkOrder = ord0, retireOrder = ord0,
              newlibsOrder = ord0, refineOrder = ord0, emptyOrder = ord0\<rparr>"

definition ords0 :: "nat \<Rightarrow> (nat \<times> nat \<times> nat) loopOrders" where
  "ords0 = (\<lambda>_. loops0)"

definition idxDup :: "(nat \<times> nat \<times> nat) LibraryIndex" where
  "idxDup =
     AddDependency (AddDependency (AddDependency MakeLibraryIndex
       ''X'' (VerPtr 1 (1, 0, 0)) ''Y'' (VerPtr 2 (1, 0, 0)))
       ''X'' (VerPtr 3 (1, 0, 0)) ''Y'' (VerPtr 4 (2, 0, 0)))
       ''X'' (VerPtr 5 (2, 0, 0)) ''Y'' (VerPtr 6 (1, 0, 0))"

text \<open>
  In \<open>idxInv\<close>, \<open>X\<close> 1.0.0 requires \<open>Y\<close> 1.0.0, and \<open>Y\<close> has the versions 2.0.0 and 1.0.0,
  each requiring \<open>X\<close> 1.0.0. In \<open>idxBack\<close>, \<open>B\<close> 1.0.0 requires \<open>L\<close> 1.0.0, \<open>L\<close> 2.0.0
  requires \<open>B\<close> 2.0.0 and \<open>L\<close> 1.0.0 requires \<open>B\<close> 1.0.0. In the store \<open>heapRefine\<close>
  the map at 0 allows the versions 1.0.0 and 2.0.0 of \<open>X\<close>, and the map at 1 allows
  2.0.0 of \<open>X\<close> and 1.0.0 of \<open>Y\<close>.
\<close>

definition idxInv :: "(nat \<times> nat \<times> nat) LibraryIndex" where
  "idxInv =
     AddDependency (AddDependency (AddDependency MakeLibraryIndex
       ''X'' (VerPtr 1 (1, 0, 0)) ''Y'' (VerPtr 2 (1, 0, 0)))
       ''Y'' (VerPtr 3 (2, 0, 0)) ''X'' (VerPtr 4 (1, 0, 0)))
       ''Y'' (VerPtr 5 (1, 0, 0)) ''X'' (VerPtr 6 (1, 0, 0))"

definition idxBack :: "(nat \<times> nat \<times> nat) LibraryIndex" where
  "idxBack =
     AddDependency (AddDependency (AddDependency MakeLibraryIndex
       ''B'' (VerPtr 1 (1, 0, 0)) ''L'' (VerPtr 2 (1, 0, 0)))
       ''L'' (VerPtr 3 (2, 0, 0)) ''B'' (VerPtr 4 (2, 0, 0)))
       ''L'' (VerPtr 5 (1, 0, 0)) ''B'' (VerPtr 6 (1, 0, 0))"

definition heapRefine :: "(nat \<times> nat \<times> nat) heap" where
  "heapRefine =
     \<lparr>confObjs = [],
      availObjs = [[(''X'', 0)], [(''X'', 1), (''Y'', 2)]],
      vlistObjs = [[VerPtr 1 (1, 0, 0), VerPtr 2 (2, 0, 0)], [VerPtr 3 (2, 0, 0)], [VerPtr 4 (1, 0, 0)]]\<rparr>"




text \<open>
  In \<open>idxOrders\<close>, \<open>A\<close> 1.0.0 requires \<open>P\<close> 1.0.0 and \<open>Q\<close> 1.0.0; \<open>P\<close> 1.0.0 requires
  \<open>R\<close> 1.0.0 and \<open>Q\<close> 1.0.0 requires \<open>R\<close> 2.0.0; \<open>R\<close> has the versions 2.0.0 and 1.0.0,
  each requiring \<open>A\<close> 1.0.0; \<open>Z\<close> 1.0.0 requires \<open>P\<close> 2.0.0 and \<open>Q\<close> 2.0.0. \<open>qFirst\<close> is
  an order that visits \<open>Q\<close> before every other name. In \<open>ordsCheckQ\<close> the loop that
  checks the versions already chosen follows \<open>qFirst\<close> in every activation and all
  other loops follow the entry lists; in \<open>ordsAllQ\<close> every loop follows \<open>qFirst\<close>.
\<close>

definition idxOrders :: "(nat \<times> nat \<times> nat) LibraryIndex" where
  "idxOrders =
     AddDependency (AddDependency (AddDependency (AddDependency (AddDependency (AddDependency
     (AddDependency (AddDependency MakeLibraryIndex
       ''A'' (VerPtr 1 (1, 0, 0)) ''P'' (VerPtr 2 (1, 0, 0)))
       ''A'' (VerPtr 1 (1, 0, 0)) ''Q'' (VerPtr 3 (1, 0, 0)))
       ''P'' (VerPtr 2 (1, 0, 0)) ''R'' (VerPtr 4 (1, 0, 0)))
       ''Q'' (VerPtr 3 (1, 0, 0)) ''R'' (VerPtr 5 (2, 0, 0)))
       ''R'' (VerPtr 5 (2, 0, 0)) ''A'' (VerPtr 1 (1, 0, 0)))
       ''R'' (VerPtr 4 (1, 0, 0)) ''A'' (VerPtr 1 (1, 0, 0)))
       ''Z'' (VerPtr 6 (1, 0, 0)) ''P'' (VerPtr 7 (2, 0, 0)))
       ''Z'' (VerPtr 6 (1, 0, 0)) ''Q'' (VerPtr 8 (2, 0, 0))"

definition qFirst :: "(nat \<times> nat \<times> nat) rangeOrder" where
  "qFirst = \<lparr>nameRank = (\<lambda>n. if n = ''Q'' then 0 else 1), versionRank = (\<lambda>_. 0)\<rparr>"

definition ordsCheckQ :: "nat \<Rightarrow> (nat \<times> nat \<times> nat) loopOrders" where
  "ordsCheckQ = (\<lambda>_. loops0\<lparr>checkOrder := qFirst\<rparr>)"

definition ordsAllQ :: "nat \<Rightarrow> (nat \<times> nat \<times> nat) loopOrders" where
  "ordsAllQ = (\<lambda>_. \<lparr>versionsOrder = qFirst, cloneOrder = qFirst, checkOrder = qFirst,
                      retireOrder = qFirst, newlibsOrder = qFirst, refineOrder = qFirst,
                      emptyOrder = qFirst\<rparr>)"



section \<open>Properties of the operations\<close>

subsection \<open>Writes to the store\<close>

lemma nth_default_append_new: "nth_default [] (xs @ [[]]) a = nth_default [] xs a"
  by (simp add: nth_default_def nth_append)

lemma length_modifyAt [simp]: "length (modifyAt a f xs) = length xs"
  by (simp add: modifyAt_def)

lemma nth_default_modifyAt:
  "nth_default [] (modifyAt a f xs) b =
     (if b = a \<and> a < length xs then f (nth_default [] xs a) else nth_default [] xs b)"
  by (auto simp: modifyAt_def nth_default_def list_update_beyond)

lemma modifyAt_id: "modifyAt a (\<lambda>x. x) xs = xs"
  by (simp add: modifyAt_def nth_default_def list_update_beyond)

lemma modifyAt_modifyAt: "modifyAt a g (modifyAt a f xs) = modifyAt a (\<lambda>x. g (f x)) xs"
  by (auto simp: modifyAt_def nth_default_def list_update_beyond)

lemma take_modifyAt: "n \<le> a \<Longrightarrow> take n (modifyAt a f xs) = take n xs"
  by (simp add: modifyAt_def)

lemma modifyAt_append_new: "modifyAt (length xs) f (xs @ [y]) = xs @ [f y]"
  by (simp add: modifyAt_def nth_default_def)

lemma modifyAt_out: "length xs \<le> a \<Longrightarrow> modifyAt a f xs = xs"
  by (simp add: modifyAt_def list_update_beyond)

lemma fold_confPut:
  "fold (\<lambda>(k, v) h'. confPut h' a k v) es h =
     h\<lparr>confObjs := modifyAt a (fold (\<lambda>(k, v). AList.update k v) es) (confObjs h)\<rparr>"
proof (induction es arbitrary: h)
  case Nil
  then show ?case by (simp add: modifyAt_id)
next
  case (Cons e es)
  then show ?case
    by (cases e) (simp add: confPut_def modifyAt_modifyAt)
qed

lemma fold_availPut:
  "fold (\<lambda>(k, v) h'. availPut h' a k v) es h =
     h\<lparr>availObjs := modifyAt a (fold (\<lambda>(k, v). AList.update k v) es) (availObjs h)\<rparr>"
proof (induction es arbitrary: h)
  case Nil
  then show ?case by (simp add: modifyAt_id)
next
  case (Cons e es)
  then show ?case
    by (cases e) (simp add: availPut_def modifyAt_modifyAt)
qed

lemma fold_availDelete:
  "fold (\<lambda>(l, _) h'. availDelete h' a l) es h =
     h\<lparr>availObjs := modifyAt a (fold (\<lambda>(l, _). AList.delete l) es) (availObjs h)\<rparr>"
proof (induction es arbitrary: h)
  case Nil
  then show ?case by (simp add: modifyAt_id)
next
  case (Cons e es)
  then show ?case
    by (cases e) (simp add: availDelete_def modifyAt_modifyAt)
qed

lemma confEntries_newConf: "confEntries (fst (newConf h)) conf = confEntries h conf"
  by (simp add: confEntries_def newConf_def nth_default_append_new split: option.splits)

lemma Configuration_Clone_eq:
  "Configuration_Clone ord h conf =
     (h\<lparr>confObjs := confObjs h @
           [fold (\<lambda>(k, v). AList.update k v) (rangeMap (nameRank ord) (confEntries h conf)) []]\<rparr>,
      length (confObjs h))"
proof -
  have "confEntries (h\<lparr>confObjs := confObjs h @ [[]]\<rparr>) conf = confEntries h conf"
    using confEntries_newConf [of h conf] by (simp add: newConf_def)
  then show ?thesis
    by (simp add: Configuration_Clone_def newConf_def fold_confPut modifyAt_append_new)
qed

lemma keys_fold_update:
  "fst ` set (fold (\<lambda>(k, v). AList.update k v) es m) = fst ` set es \<union> fst ` set m"
proof (induction es arbitrary: m)
  case Nil
  then show ?case by simp
next
  case (Cons e es)
  then show ?case by (cases e) (auto simp: dom_update)
qed

lemma keys_delete: "fst ` set (AList.delete k m) = fst ` set m - {k}"
  by (auto simp: AList.delete_eq)

lemma keys_fold_delete:
  "fst ` set (fold (\<lambda>(l, _). AList.delete l) es m) = fst ` set m - fst ` set es"
proof (induction es arbitrary: m)
  case Nil
  then show ?case by simp
next
  case (Cons e es)
  obtain k v where e: "e = (k, v)" by (cases e)
  have "fst ` set (fold (\<lambda>(l, _). AList.delete l) (e # es) m) =
        fst ` set (AList.delete k m) - fst ` set es"
    by (simp add: e Cons.IH)
  also have "\<dots> = (fst ` set m - {k}) - fst ` set es"
    by (simp only: keys_delete)
  also have "\<dots> = fst ` set m - fst ` set (e # es)"
    by (auto simp: e)
  finally show ?case .
qed

lemma distinct_fold_delete:
  "distinct (map fst m) \<Longrightarrow> distinct (map fst (fold (\<lambda>(l, _). AList.delete l) es m))"
  by (induction es arbitrary: m) (auto simp: distinct_delete split: prod.splits)

lemma set_rangeMap [simp]: "set (rangeMap r m) = set m"
  by (simp add: rangeMap_def)

lemma distinct_keys_rangeMap [simp]: "distinct (map fst (rangeMap r m)) = distinct (map fst m)"
  by (simp add: rangeMap_def distinct_map)

subsection \<open>The loop of Dependencies\<close>

lemma Compare_eq_0 [simp]: "Compare v w = 0 \<longleftrightarrow> deref v = deref w"
  by (auto simp: Compare_def)

lemma Contains_iff: "Contains vl v \<longleftrightarrow> deref v \<in> deref ` set vl"
  unfolding Contains_def list_ex_iff Compare_eq_0 by (metis imageE imageI)

lemma update_absent: "k \<notin> fst ` set m \<Longrightarrow> AList.update k v m = m @ [(k, v)]"
  by (induction m) auto

lemma nth_default_last [simp]: "nth_default d (xs @ [x]) (length xs) = x"
  by (simp add: nth_default_def)

lemma nth_default_in: "p < length xs \<Longrightarrow> nth_default d xs p = xs ! p"
  by (simp add: nth_default_def)

lemma depInv_init: "depInv h lib v [] (fst (newAvail h))"
  by (simp add: depInv_def newAvail_def availEntries_def Let_def nth_default_def
      requiredNames_def)

lemma requiredNames_snoc:
  "requiredNames lib v (es @ [dep]) =
     (if matches lib v dep then insert (name (dependsOn dep)) (requiredNames lib v es)
      else requiredNames lib v es)"
  by (simp add: requiredNames_def)

lemma requiredVersions_snoc:
  "requiredVersions lib v (es @ [dep]) k =
     (if matches lib v dep \<and> name (dependsOn dep) = k
      then insert (deref (ver (dependsOn dep))) (requiredVersions lib v es k)
      else requiredVersions lib v es k)"
  by (simp add: requiredVersions_def)

lemma key_in_keys: "(k, p) \<in> set m \<Longrightarrow> k \<in> fst ` set m"
  by (metis fst_conv imageI)

lemma value_in_values: "(k, p) \<in> set m \<Longrightarrow> p \<in> snd ` set m"
  by (metis snd_conv imageI)

lemma requiredNamesI:
  "e \<in> set es \<Longrightarrow> matches lib v e \<Longrightarrow> name (dependsOn e) \<in> requiredNames lib v es"
  by (simp add: requiredNames_def)

lemma depInv_skip:
  assumes "depInv h lib v es h'" and "\<not> matches lib v dep"
  shows "depInv h lib v (es @ [dep]) h'"
  using assms by (simp add: depInv_def requiredNames_snoc requiredVersions_snoc)

lemma depInv_found:
  assumes inv: "depInv h lib v es h'" and m: "matches lib v dep"
    and f: "map_of (availEntries h' (Some (length (availObjs h)))) (name (dependsOn dep)) = Some p"
  shows "depInv h lib v (es @ [dep]) (Add h' p (ver (dependsOn dep)))"
proof -
  let ?k = "name (dependsOn dep)" and ?w = "ver (dependsOn dep)"
  define dv where "dv = availEntries h' (Some (length (availObjs h)))"
  from inv have
    c: "confObjs h' = confObjs h" and
    t: "take (length (vlistObjs h)) (vlistObjs h') = vlistObjs h" and
    a: "availObjs h' = availObjs h @ [dv]" and
    d1: "distinct (map fst dv)" and d2: "distinct (map snd dv)" and
    ks: "fst ` set dv = requiredNames lib v es" and
    vs: "\<And>k p. (k, p) \<in> set dv \<Longrightarrow> length (vlistObjs h) \<le> p \<and> p < length (vlistObjs h') \<and>
            deref ` set (vlistObjs h' ! p) = requiredVersions lib v es k"
    unfolding depInv_def dv_def Let_def by simp_all
  have dv: "availEntries h' (Some (length (availObjs h))) = dv"
    by (simp add: dv_def)
  from f have kp: "(?k, p) \<in> set dv"
    by (simp add: dv map_of_SomeD)
  from vs [OF kp] have p: "length (vlistObjs h) \<le> p" "p < length (vlistObjs h')"
    and sp: "deref ` set (vlistObjs h' ! p) = requiredVersions lib v es ?k" by auto
  have "?k \<in> fst ` set dv"
    using kp by (rule key_in_keys)
  then have "?k \<in> requiredNames lib v es"
    using ks by simp
  then have K: "requiredNames lib v (es @ [dep]) = requiredNames lib v es"
    by (simp add: requiredNames_snoc insert_absorb)
  have S1: "requiredVersions lib v (es @ [dep]) ?k = insert (deref ?w) (requiredVersions lib v es ?k)"
    using m by (simp add: requiredVersions_snoc)
  have S2: "requiredVersions lib v (es @ [dep]) k = requiredVersions lib v es k" if "k \<noteq> ?k" for k
    using that by (simp add: requiredVersions_snoc)
  have uniq1: "k = ?k" if "(k, p) \<in> set dv" for k
    using d2 that kp by (metis distinct_map inj_onD prod.inject snd_conv)
  have uniq2: "q = p" if "(?k, q) \<in> set dv" for q
    using d1 that kp by (metis distinct_map inj_onD prod.inject fst_conv)
  show ?thesis
  proof (cases "Contains (vlistAt h' p) ?w")
    case True
    then have "deref ?w \<in> requiredVersions lib v es ?k"
      using sp p by (simp add: Contains_iff vlistAt_def nth_default_in)
    then have S1': "requiredVersions lib v (es @ [dep]) ?k = requiredVersions lib v es ?k"
      using S1 by (simp add: insert_absorb)
    have "deref ` set (vlistObjs h' ! q) = requiredVersions lib v (es @ [dep]) k"
      if "(k, q) \<in> set dv" for k q
      using vs [OF that] S1' S2 [of k] by (cases "k = ?k") simp_all
    with vs have vs': "\<And>k q. (k, q) \<in> set dv \<Longrightarrow>
            length (vlistObjs h) \<le> q \<and> q < length (vlistObjs h') \<and>
            deref ` set (vlistObjs h' ! q) = requiredVersions lib v (es @ [dep]) k"
      by simp
    have "Add h' p ?w = h'" using True p
      by (simp add: Add_def addVersion_def modifyAt_def vlistAt_def nth_default_in)
    moreover have "depInv h lib v (es @ [dep]) h'"
      unfolding depInv_def Let_def dv using c t a d1 d2 ks K vs' by simp
    ultimately show ?thesis by simp
  next
    case False
    let ?h = "h'\<lparr>vlistObjs := (vlistObjs h')[p := vlistObjs h' ! p @ [?w]]\<rparr>"
    have add: "Add h' p ?w = ?h"
      using False p by (simp add: Add_def addVersion_def modifyAt_def nth_default_in vlistAt_def)
    have t': "take (length (vlistObjs h)) (vlistObjs ?h) = vlistObjs h"
      using t p by simp
    have vs': "length (vlistObjs h) \<le> q \<and> q < length (vlistObjs ?h) \<and>
          deref ` set (vlistObjs ?h ! q) = requiredVersions lib v (es @ [dep]) k"
      if kq: "(k, q) \<in> set dv" for k q
    proof (cases "q = p")
      case True
      then have "k = ?k" using uniq1 kq by simp
      then show ?thesis using vs [OF kq] True S1 sp p by simp
    next
      case False
      then have "k \<noteq> ?k" using uniq2 kq by auto
      then show ?thesis using vs [OF kq] False S2 [of k] by simp
    qed
    have "availEntries ?h (Some (length (availObjs h))) = dv"
      using dv by (simp add: availEntries_def)
    then have "depInv h lib v (es @ [dep]) ?h"
      unfolding depInv_def Let_def using c t' a d1 d2 ks K vs' by simp
    then show ?thesis by (simp add: add)
  qed
qed

lemma depInv_new:
  assumes inv: "depInv h lib v es h'" and m: "matches lib v dep"
    and f: "map_of (availEntries h' (Some (length (availObjs h)))) (name (dependsOn dep)) = None"
  shows "depInv h lib v (es @ [dep])
           (Add (availPut (fst (NewVersionList h')) (length (availObjs h)) (name (dependsOn dep))
                   (length (vlistObjs h')))
                (length (vlistObjs h')) (ver (dependsOn dep)))"
proof -
  let ?k = "name (dependsOn dep)" and ?w = "ver (dependsOn dep)"
  let ?n = "length (vlistObjs h')"
  define dv where "dv = availEntries h' (Some (length (availObjs h)))"
  from inv have
    c: "confObjs h' = confObjs h" and
    t: "take (length (vlistObjs h)) (vlistObjs h') = vlistObjs h" and
    a: "availObjs h' = availObjs h @ [dv]" and
    d1: "distinct (map fst dv)" and d2: "distinct (map snd dv)" and
    ks: "fst ` set dv = requiredNames lib v es" and
    vs: "\<And>k p. (k, p) \<in> set dv \<Longrightarrow> length (vlistObjs h) \<le> p \<and> p < length (vlistObjs h') \<and>
            deref ` set (vlistObjs h' ! p) = requiredVersions lib v es k"
    unfolding depInv_def dv_def Let_def by simp_all
  have nk: "?k \<notin> fst ` set dv"
    using f by (simp add: dv_def map_of_eq_None_iff)
  have len: "length (vlistObjs h) \<le> ?n"
    using t by (metis length_take min.cobounded1 min.commute)
  let ?h = "h'\<lparr>availObjs := availObjs h @ [dv @ [(?k, ?n)]], vlistObjs := vlistObjs h' @ [[?w]]\<rparr>"
  have step: "Add (availPut (fst (NewVersionList h')) (length (availObjs h)) ?k ?n) ?n ?w = ?h"
    using nk by (simp add: NewVersionList_def availPut_def Add_def a modifyAt_append_new
        update_absent addVersion_def Contains_def)
  have nsnd: "?n \<notin> snd ` set dv"
  proof
    assume "?n \<in> snd ` set dv"
    then obtain k where "(k, ?n) \<in> set dv" by force
    from vs [OF this] show False by simp
  qed
  have empty: "requiredVersions lib v es ?k = {}"
  proof -
    have "?k \<notin> requiredNames lib v es" using nk ks by simp
    have "\<not> (matches lib v e \<and> name (dependsOn e) = ?k)" if "e \<in> set es" for e
    proof
      assume e: "matches lib v e \<and> name (dependsOn e) = ?k"
      then have "name (dependsOn e) \<in> requiredNames lib v es"
        using that by (intro requiredNamesI) simp_all
      with e \<open>?k \<notin> requiredNames lib v es\<close> show False by simp
    qed
    then have "filter (\<lambda>e. matches lib v e \<and> name (dependsOn e) = ?k) es = []"
      by (simp add: filter_empty_conv)
    then show ?thesis by (simp add: requiredVersions_def)
  qed
  have vs': "length (vlistObjs h) \<le> q \<and> q < length (vlistObjs ?h) \<and>
        deref ` set (vlistObjs ?h ! q) = requiredVersions lib v (es @ [dep]) k"
    if kq: "(k, q) \<in> set (dv @ [(?k, ?n)])" for k q
  proof (cases "(k, q) \<in> set dv")
    case True
    from True have "k \<in> fst ` set dv" by (rule key_in_keys)
    then have "k \<noteq> ?k" using nk by blast
    then show ?thesis
      using vs [OF True] by (simp add: requiredVersions_snoc nth_append)
  next
    case False
    then have "k = ?k" "q = ?n" using kq by auto
    then show ?thesis
      using len m empty by (simp add: requiredVersions_snoc)
  qed
  have "availEntries ?h (Some (length (availObjs h))) = dv @ [(?k, ?n)]"
    by (simp add: availEntries_def)
  moreover have "take (length (vlistObjs h)) (vlistObjs ?h) = vlistObjs h"
    using t len by simp
  moreover have "fst ` set (dv @ [(?k, ?n)]) = requiredNames lib v (es @ [dep])"
    using ks m by (simp add: requiredNames_snoc)
  ultimately have "depInv h lib v (es @ [dep]) ?h"
    unfolding depInv_def Let_def using c d1 d2 nk nsnd vs' by simp
  then show ?thesis by (simp add: step)
qed

lemma depInv_step:
  assumes "depInv h lib v es h'"
  shows "depInv h lib v (es @ [dep]) (DependenciesBody (length (availObjs h)) lib v dep h')"
proof (cases "matches lib v dep")
  case False
  then have "DependenciesBody (length (availObjs h)) lib v dep h' = h'"
    by (auto simp: DependenciesBody_def matches_def)
  then show ?thesis using depInv_skip [OF assms False] by simp
next
  case True
  then have m: "name (library dep) = lib \<and> Compare v (ver (library dep)) = 0"
    by (simp add: matches_def)
  show ?thesis
  proof (cases "map_of (availEntries h' (Some (length (availObjs h)))) (name (dependsOn dep))")
    case None
    then show ?thesis
      using depInv_new [OF assms True None] m
      by (simp add: DependenciesBody_def NewVersionList_def)
  next
    case (Some p)
    then show ?thesis
      using depInv_found [OF assms True Some] m
      by (simp add: DependenciesBody_def)
  qed
qed

lemma depInv_fold:
  "depInv h lib v es h' \<Longrightarrow>
   depInv h lib v (es @ xs) (fold (DependenciesBody (length (availObjs h)) lib v) xs h')"
proof (induction xs arbitrary: es h')
  case Nil
  then show ?case by simp
next
  case (Cons x xs)
  from Cons.IH [OF depInv_step [OF Cons.prems, of x]] show ?case by simp
qed

lemma depInv_Dependencies:
  "depInv h lib v (libraries index) (fst (Dependencies index h lib v))"
  using depInv_fold [OF depInv_init, of h lib v "libraries index"]
  by (simp add: Dependencies_def newAvail_def)

lemma snd_Dependencies [simp]: "snd (Dependencies index h lib v) = length (availObjs h)"
  by (simp add: Dependencies_def newAvail_def)

subsection \<open>What the operations leave unchanged\<close>

lemma take_eq_length: "take (length xs) ys = xs \<Longrightarrow> length xs \<le> length ys"
  by (metis length_take min.cobounded1 min.commute)

lemma take_take_eq:
  assumes "take (length xs) ys = xs" and "take (length ys) zs = ys"
  shows "take (length xs) zs = xs"
proof -
  have "length xs \<le> length ys" using assms(1) by (rule take_eq_length)
  then have "take (length xs) zs = take (length xs) (take (length ys) zs)"
    by (simp add: min_def)
  then show ?thesis using assms by simp
qed

lemma heapExtends_refl [simp]: "heapExtends h h"
  by (simp add: heapExtends_def)

lemma heapExtends_trans: "heapExtends h h' \<Longrightarrow> heapExtends h' h'' \<Longrightarrow> heapExtends h h''"
  unfolding heapExtends_def by (blast intro: take_take_eq)

lemma heapExtends_lengths:
  assumes "heapExtends h h'"
  shows "length (confObjs h) \<le> length (confObjs h')"
    and "length (availObjs h) \<le> length (availObjs h')"
    and "length (vlistObjs h) \<le> length (vlistObjs h')"
  using assms unfolding heapExtends_def by (blast intro: take_eq_length)+

lemma heapExtends_newConf: "heapExtends h (fst (newConf h))"
  by (simp add: heapExtends_def newConf_def)

lemma heapExtends_newAvail: "heapExtends h (fst (newAvail h))"
  by (simp add: heapExtends_def newAvail_def)

lemma heapExtends_NewVersionList: "heapExtends h (fst (NewVersionList h))"
  by (simp add: heapExtends_def NewVersionList_def)

lemma heapExtends_Intersection: "heapExtends h (fst (Intersection h xs ys))"
  by (simp add: heapExtends_def Intersection_def)

lemma heapExtends_confPut:
  "heapExtends h0 h \<Longrightarrow> length (confObjs h0) \<le> a \<Longrightarrow> heapExtends h0 (confPut h a k v)"
  by (simp add: heapExtends_def confPut_def take_modifyAt)

lemma heapExtends_availPut:
  "heapExtends h0 h \<Longrightarrow> length (availObjs h0) \<le> a \<Longrightarrow> heapExtends h0 (availPut h a k v)"
  by (simp add: heapExtends_def availPut_def take_modifyAt)

lemma heapExtends_availDelete:
  "heapExtends h0 h \<Longrightarrow> length (availObjs h0) \<le> a \<Longrightarrow> heapExtends h0 (availDelete h a k)"
  by (simp add: heapExtends_def availDelete_def take_modifyAt)

lemma heapExtends_Add:
  "heapExtends h0 h \<Longrightarrow> length (vlistObjs h0) \<le> p \<Longrightarrow> heapExtends h0 (Add h p v)"
  by (simp add: heapExtends_def Add_def take_modifyAt)

lemma heapExtends_ReverseSort:
  "heapExtends h0 h \<Longrightarrow> length (vlistObjs h0) \<le> p \<Longrightarrow> heapExtends h0 (ReverseSort h p)"
  by (simp add: heapExtends_def ReverseSort_def take_modifyAt)

lemma heapExtends_Configuration_Clone: "heapExtends h (fst (Configuration_Clone ord h conf))"
  by (simp add: Configuration_Clone_eq heapExtends_def)

lemma availEntries_newAvail: "availEntries (fst (newAvail h)) a = availEntries h a"
  by (simp add: availEntries_def newAvail_def split: option.splits)

lemma Available_Clone_eq:
  "Available_Clone ord h a =
     (h\<lparr>availObjs := availObjs h @
           [fold (\<lambda>(k, v). AList.update k v) (rangeMap (nameRank ord) (availEntries h a)) []]\<rparr>,
      length (availObjs h))"
proof -
  have "availEntries (h\<lparr>availObjs := availObjs h @ [[]]\<rparr>) a = availEntries h a"
    using availEntries_newAvail [of h a] by (simp add: newAvail_def)
  then show ?thesis
    by (simp add: Available_Clone_def newAvail_def fold_availPut modifyAt_append_new)
qed

lemma fold_Add:
  "fold (\<lambda>(v, _) h'. Add h' p v) ps h =
     h\<lparr>vlistObjs := modifyAt p (fold (\<lambda>(v, _). addVersion v) ps) (vlistObjs h)\<rparr>"
proof (induction ps arbitrary: h)
  case Nil
  then show ?case by (simp add: modifyAt_id)
next
  case (Cons e ps)
  then show ?case
    by (cases e) (simp add: Add_def modifyAt_modifyAt)
qed

lemma Versions_eq:
  "Versions ord index h lib =
     (h\<lparr>vlistObjs := vlistObjs h @
           [rev (sort_key deref
                  (fold (\<lambda>(v, _). addVersion v)
                        (rangeMap (versionRank ord) (presentVersions index lib)) []))]\<rparr>,
      length (vlistObjs h))"
  by (simp add: Versions_def presentVersions_def NewVersionList_def fold_Add ReverseSort_def
      modifyAt_append_new modifyAt_modifyAt)

lemma heapExtends_Versions: "heapExtends h (fst (Versions ord index h lib))"
  by (simp add: Versions_eq heapExtends_def)

lemma heapExtends_Dependencies: "heapExtends h (fst (Dependencies index h lib v))"
  using depInv_Dependencies [of h lib v index]
  by (simp add: depInv_def heapExtends_def Let_def)

lemma refInv_step:
  assumes "refInv h h'"
  shows "refInv h (RefineBody (length (availObjs h)) sub e h')"
proof -
  obtain k v where e: "e = (k, v)" by (cases e)
  have len: "length (vlistObjs h) \<le> length (vlistObjs h')"
    using assms by (auto simp: refInv_def intro: take_eq_length)
  show ?thesis
    using assms len
    by (auto simp: refInv_def RefineBody_def e availPut_def Intersection_def take_modifyAt
        split: option.splits)
qed

lemma refInv_fold:
  "refInv h h' \<Longrightarrow> refInv h (fold (RefineBody (length (availObjs h)) sub) es h')"
  by (induction es arbitrary: h') (simp_all add: refInv_step)

lemma refInv_Refine: "refInv h (fst (Refine ord h a sub))"
proof -
  have "refInv h (h\<lparr>availObjs := availObjs h @ [[]]\<rparr>)"
    by (simp add: refInv_def)
  then show ?thesis
    by (simp add: Refine_def newAvail_def refInv_fold)
qed

lemma snd_Refine [simp]: "snd (Refine ord h a sub) = length (availObjs h)"
  by (simp add: Refine_def newAvail_def)

lemma heapExtends_Refine: "heapExtends h (fst (Refine ord h a sub))"
  using refInv_Refine [of h ord a sub] by (simp add: refInv_def heapExtends_def)

subsection \<open>One version tried\<close>

lemma confEntries_Configuration_Clone:
  "confEntries (fst (Configuration_Clone ord h conf)) conf = confEntries h conf"
proof (cases conf)
  case None
  then show ?thesis by (simp add: confEntries_def)
next
  case (Some a)
  consider "a < length (confObjs h)" | "a = length (confObjs h)" | "length (confObjs h) < a"
    by linarith
  then show ?thesis
  proof cases
    case 1
    then show ?thesis
      by (simp add: Some confEntries_def Configuration_Clone_eq nth_default_def nth_append)
  next
    case 2
    then have "confEntries h conf = []"
      by (simp add: Some confEntries_def nth_default_def)
    then show ?thesis
      using 2 by (simp add: Some Configuration_Clone_eq rangeMap_def confEntries_def)
  next
    case 3
    then show ?thesis
      by (simp add: Some confEntries_def Configuration_Clone_eq nth_default_def)
  qed
qed

lemma confEntries_cong: "confObjs h = confObjs h' \<Longrightarrow> confEntries h c = confEntries h' c"
  by (cases c) (simp_all add: confEntries_def)

lemma availEntries_cong: "availObjs h = availObjs h' \<Longrightarrow> availEntries h a = availEntries h' a"
  by (cases a) (simp_all add: availEntries_def)

lemma requiredNames_subset: "requiredNames lib v (libraries index) \<subseteq> depNames index"
  by (auto simp: requiredNames_def depNames_def)

lemma tryVersion_Recurse:
  assumes "tryVersion os index h mapped avail lib rest v = Recurse h' c i n"
  shows "confKeys h' (Some c) = insert lib (confKeys h mapped)"
    and "\<exists>newlibs. n = newlibs @ rest \<and> distinct newlibs \<and>
           set newlibs \<subseteq> depNames index - confKeys h mapped - set rest"
proof -
  define cl where "cl = fold (\<lambda>(k, v). AList.update k v)
      (rangeMap (nameRank (cloneOrder os)) (confEntries h mapped)) []"
  define h1 where "h1 = h\<lparr>confObjs := confObjs h @ [cl]\<rparr>"
  define h2 where "h2 = fst (Dependencies index h1 lib v)"
  define d where "d = length (availObjs h)"
  define dv where "dv = availEntries h2 (Some d)"
  define es where "es = rangeMap (nameRank (retireOrder os)) (confEntries h mapped)"
  define h3 where "h3 = h2\<lparr>availObjs := availObjs h @ [fold (\<lambda>(l, _). AList.delete l) es dv]\<rparr>"
  define newlibs where "newlibs = filter (\<lambda>n1. \<not> list_ex (\<lambda>n2. n1 = n2) rest)
        (map fst (rangeMap (nameRank (newlibsOrder os)) (fold (\<lambda>(l, _). AList.delete l) es dv)))"
  define h4 where "h4 = fst (Refine (refineOrder os) h3 avail (Some d))"
  define h5 where "h5 = availDelete h4 (length (availObjs h3)) lib"
  have clone: "Configuration_Clone (cloneOrder os) h mapped = (h1, length (confObjs h))"
    by (simp add: Configuration_Clone_eq h1_def cl_def)
  have inv: "depInv h1 lib v (libraries index) h2"
    unfolding h2_def by (rule depInv_Dependencies)
  have d1: "length (availObjs h1) = d" by (simp add: h1_def d_def)
  from inv have c2: "confObjs h2 = confObjs h1"
    and a2: "availObjs h2 = availObjs h @ [dv]"
    and dist: "distinct (map fst dv)"
    and keys: "fst ` set dv = requiredNames lib v (libraries index)"
    unfolding depInv_def Let_def d1 dv_def by (simp_all add: h1_def)
  have "confEntries h2 mapped = confEntries h1 mapped"
    by (rule confEntries_cong) (simp add: c2 h1_def)
  then have m2: "confEntries h2 mapped = confEntries h mapped"
    using confEntries_Configuration_Clone [of "cloneOrder os" h mapped] by (simp add: clone)
  have deps: "Dependencies index h1 lib v = (h2, d)"
    by (simp add: h2_def d1 [symmetric] prod_eq_iff)
  have h3: "fold (\<lambda>(l, _) h'. availDelete h' d l) es h2 = h3"
    by (simp add: fold_availDelete a2 d_def modifyAt_append_new h3_def)
  have e3: "availEntries h3 (Some d) = fold (\<lambda>(l, _). AList.delete l) es dv"
    by (simp add: availEntries_def h3_def d_def)
  have ref: "Refine (refineOrder os) h3 avail (Some d) = (h4, length (availObjs h3))"
    by (simp add: h4_def prod_eq_iff)
  have c5: "confObjs h5 = confObjs h @ [cl]"
    using refInv_Refine [of h3 "refineOrder os" avail "Some d"]
    by (simp add: h5_def availDelete_def refInv_def h4_def h3_def c2 h1_def)
  from assms have res: "h' = confPut h5 (length (confObjs h)) lib v"
      "c = length (confObjs h)" "n = newlibs @ rest"
    by (auto simp: tryVersion_def clone deps m2 es_def [symmetric] h3 e3 ref
        newlibs_def [symmetric] h5_def [symmetric] Let_def
        split: option.splits if_splits prod.splits)
  have "confEntries h' (Some c) = AList.update lib v cl"
    by (simp add: res confPut_def c5 modifyAt_append_new confEntries_def)
  then show "confKeys h' (Some c) = insert lib (confKeys h mapped)"
    by (simp add: confKeys_def dom_update cl_def keys_fold_update)
  have "distinct newlibs"
    unfolding newlibs_def using dist by (intro distinct_filter) (simp add: distinct_fold_delete)
  moreover have "set newlibs \<subseteq> depNames index - confKeys h mapped - set rest"
    using requiredNames_subset [of lib v index]
    by (auto simp: newlibs_def keys_fold_delete keys [symmetric] es_def confKeys_def list_ex_iff)
  ultimately show "\<exists>newlibs. n = newlibs @ rest \<and> distinct newlibs \<and>
           set newlibs \<subseteq> depNames index - confKeys h mapped - set rest"
    using res by blast
qed

subsection \<open>The recursion ends\<close>

lemma pending_step:
  fixes T M :: "'a set"
  assumes fin: "finite T" and dist: "distinct newlibs"
    and sub: "set newlibs \<subseteq> T - M - set rest"
  shows "length (newlibs @ rest) + 2 * card (T - insert lib M - set (newlibs @ rest))
           + card (T \<inter> set (newlibs @ rest) - insert lib M)
         < length (lib # rest) + 2 * card (T - M - set (lib # rest))
           + card (T \<inter> set (lib # rest) - M)"
proof -
  let ?N = "set newlibs" and ?R = "set rest"
  let ?D = "?N - {lib}"
  let ?A' = "T - insert lib M - set (newlibs @ rest)"
  let ?B' = "T \<inter> set (newlibs @ rest) - insert lib M"
  let ?A = "T - M - set (lib # rest)"
  let ?B = "T \<inter> set (lib # rest) - M"
  let ?C = "T \<inter> ?R - M - {lib}"
  have finN: "finite ?D" "finite ?C" "finite ?A'" "finite ?B"
    using fin by auto
  have "?A = ?A' \<union> ?D" "?A' \<inter> ?D = {}"
    using sub by auto
  then have A: "card ?A = card ?A' + card ?D"
    using finN by (metis card_Un_disjoint)
  have "?B' = ?D \<union> ?C" "?D \<inter> ?C = {}"
    using sub by auto
  then have B': "card ?B' = card ?D + card ?C"
    using finN by (metis card_Un_disjoint)
  have k: "length newlibs = card ?D + (if lib \<in> ?N then 1 else 0)"
  proof -
    have "length newlibs = card ?N" using dist by (simp add: distinct_card)
    also have "\<dots> = card ?D + (if lib \<in> ?N then 1 else 0)"
      by (simp add: card_Diff_singleton_if) (metis List.finite_set card_gt_0_iff empty_iff
          Suc_pred)
    finally show ?thesis .
  qed
  have B: "card ?C + (if lib \<in> ?N then 1 else 0) \<le> card ?B"
  proof (cases "lib \<in> ?N")
    case True
    then have "insert lib ?C \<subseteq> ?B" using sub by auto
    then have "card (insert lib ?C) \<le> card ?B" using finN by (intro card_mono) auto
    moreover have "card (insert lib ?C) = Suc (card ?C)"
      by (rule card_insert_disjoint) (use finN in auto)
    ultimately show ?thesis using True by simp
  next
    case False
    have "?C \<subseteq> ?B" by auto
    then have "card ?C \<le> card ?B" using finN by (intro card_mono) auto
    then show ?thesis using False by simp
  qed
  show ?thesis using A B' k B by simp
qed

lemma finite_depNames [simp]: "finite (depNames index)"
  by (simp add: depNames_def)

lemma confKeys_Versions: "confKeys (fst (Versions ord index h lib)) conf = confKeys h conf"
  by (simp add: confKeys_def Versions_eq confEntries_cong [of "h\<lparr>vlistObjs := x\<rparr>" h for x])

lemma findFirstBody_Recurse:
  assumes "findFirstBody os index h mapped avail rest = Recurse h' c i n"
  shows "\<exists>lib rest' h1 v. rest = lib # rest' \<and> confKeys h1 mapped = confKeys h mapped \<and>
           heapExtends h h1 \<and>
           tryVersion os index h1 mapped avail lib rest' v = Recurse h' c i n"
proof (cases rest)
  case Nil
  with assms show ?thesis by (simp add: findFirstBody_def)
next
  case (Cons lib rest')
  show ?thesis
  proof (cases "map_of (availEntries h avail) lib")
    case None
    let ?h1 = "fst (Versions (versionsOrder os) index h lib)"
    from assms Cons None obtain v where
      "tryVersion os index ?h1 mapped avail lib rest' v = Recurse h' c i n"
      by (auto simp: findFirstBody_def case_prod_beta split: list.splits)
    then show ?thesis
      using Cons confKeys_Versions [of "versionsOrder os" index h lib mapped]
        heapExtends_Versions [of h "versionsOrder os" index lib]
      by blast
  next
    case (Some vers)
    with assms Cons show ?thesis
      by (auto simp: findFirstBody_def split: list.splits)
  qed
qed

lemma findFirstBody_decreases:
  assumes "findFirstBody os index h mapped avail rest = Recurse h' c i n"
  shows "pending index h' (Some c) n < pending index h mapped rest"
proof -
  from findFirstBody_Recurse [OF assms] obtain lib rest' h1 v where
    r: "rest = lib # rest'" and k: "confKeys h1 mapped = confKeys h mapped" and
    t: "tryVersion os index h1 mapped avail lib rest' v = Recurse h' c i n"
    by blast
  from tryVersion_Recurse [OF t] obtain newlibs where
    c: "confKeys h' (Some c) = insert lib (confKeys h mapped)" and
    n: "n = newlibs @ rest'" "distinct newlibs"
       "set newlibs \<subseteq> depNames index - confKeys h mapped - set rest'"
    unfolding k by blast
  show ?thesis
    unfolding pending_def c r n(1)
    by (rule pending_step [OF finite_depNames n(2) n(3)])
qed

subsection \<open>The frame of one activation\<close>

lemma outcomeHeap_simps [simp]:
  "outcomeHeap (Return h r) = h" "outcomeHeap (Recurse h c i n) = h"
  by (simp_all add: outcomeHeap_def)

lemma heapExtends_fold_availDelete:
  "heapExtends h0 h \<Longrightarrow> length (availObjs h0) \<le> a \<Longrightarrow>
   heapExtends h0 (fold (\<lambda>(l, _) h'. availDelete h' a l) es h)"
  by (induction es arbitrary: h) (auto simp: heapExtends_availDelete)

lemma snd_Configuration_Clone [simp]:
  "snd (Configuration_Clone ord h conf) = length (confObjs h)"
  by (simp add: Configuration_Clone_eq)

lemma heapExtends_tryVersion:
  "heapExtends h (outcomeHeap (tryVersion os index h mapped avail lib rest v))"
proof -
  define h1 where "h1 = fst (Configuration_Clone (cloneOrder os) h mapped)"
  define h2 where "h2 = fst (Dependencies index h1 lib v)"
  define d where "d = length (availObjs h1)"
  define h3 where "h3 = fold (\<lambda>(l, _) h'. availDelete h' d l)
                          (rangeMap (nameRank (retireOrder os)) (confEntries h2 mapped)) h2"
  define h4 where "h4 = fst (Refine (refineOrder os) h3 avail (Some d))"
  define h5 where "h5 = availDelete h4 (length (availObjs h3)) lib"
  define h6 where "h6 = confPut h5 (length (confObjs h)) lib v"
  have e1: "heapExtends h h1"
    unfolding h1_def by (rule heapExtends_Configuration_Clone)
  have e2: "heapExtends h h2"
    unfolding h2_def by (rule heapExtends_trans [OF e1 heapExtends_Dependencies])
  have d: "length (availObjs h) \<le> d"
    unfolding d_def using e1 by (rule heapExtends_lengths)
  have e3: "heapExtends h h3"
    unfolding h3_def using e2 d by (rule heapExtends_fold_availDelete)
  have e4: "heapExtends h h4"
    unfolding h4_def by (rule heapExtends_trans [OF e3 heapExtends_Refine])
  have "length (availObjs h) \<le> length (availObjs h3)"
    using e3 by (rule heapExtends_lengths)
  then have e5: "heapExtends h h5"
    unfolding h5_def using e4 by (intro heapExtends_availDelete)
  have e6: "heapExtends h h6"
    unfolding h6_def using e5 by (intro heapExtends_confPut) simp_all
  have "outcomeHeap (tryVersion os index h mapped avail lib rest v) \<in> {h2, h5, h6}"
    by (simp add: tryVersion_def case_prod_beta Let_def h1_def [symmetric] h2_def [symmetric]
        d_def [symmetric] h3_def [symmetric] h4_def [symmetric] h5_def [symmetric]
        h6_def [symmetric] split: option.splits)
  then show ?thesis using e2 e5 e6 by auto
qed

lemma heapExtends_findFirstBody:
  "heapExtends h (outcomeHeap (findFirstBody os index h mapped avail rest))"
proof (cases rest)
  case Nil
  then show ?thesis by (simp add: findFirstBody_def)
next
  case (Cons lib rest')
  define h1 where "h1 = (case map_of (availEntries h avail) lib of
                           Some vers \<Rightarrow> h | None \<Rightarrow> fst (Versions (versionsOrder os) index h lib))"
  have e1: "heapExtends h h1"
    by (simp add: h1_def heapExtends_Versions split: option.splits)
  have "outcomeHeap (findFirstBody os index h mapped avail rest) = h1 \<or>
        (\<exists>v. outcomeHeap (findFirstBody os index h mapped avail rest) =
              outcomeHeap (tryVersion os index h1 mapped avail lib rest' v))"
    by (auto simp: findFirstBody_def Cons h1_def case_prod_beta split: option.splits list.splits)
  then show ?thesis
    using e1 heapExtends_trans [OF e1 heapExtends_tryVersion] by auto
qed

subsection \<open>Termination\<close>

termination findFirst
  by (relation "measure (\<lambda>(ords, index, h, mapped, avail, rest). pending index h mapped rest)")
    (auto simp: findFirstBody_decreases)

termination findFirstDepth
  by (relation "measure (\<lambda>(ords, index, h, mapped, avail, rest). pending index h mapped rest)")
    (auto simp: findFirstBody_decreases)

declare findFirst.simps [simp del] findFirstDepth.simps [simp del]

subsection \<open>Versions\<close>

lemma keys_update: "fst ` set (AList.update k v m) = insert k (fst ` set m)"
  by (simp add: dom_update)

lemma keys_present_fold:
  "fst ` set (fold (\<lambda>dep present. if name (library dep) = lib
                                    then AList.update (ver (library dep)) True present else present)
                   es acc) =
   fst ` set acc \<union> set (map (\<lambda>e. ver (library e)) (filter (\<lambda>e. name (library e) = lib) es))"
proof (induction es arbitrary: acc)
  case Nil
  then show ?case by simp
next
  case (Cons e es)
  show ?case
    by (simp add: Cons.IH keys_update)
qed

lemma keys_presentVersions:
  "fst ` set (presentVersions index lib) = set (sourceVersions index lib)"
  by (simp add: presentVersions_def sourceVersions_def keys_present_fold)

lemma set_addVersion:
  "deref ` set (addVersion v vl) = insert (deref v) (deref ` set vl)"
  by (auto simp: addVersion_def Contains_iff)

lemma subset_addVersion: "set (addVersion v vl) \<subseteq> insert v (set vl)"
  by (auto simp: addVersion_def)

lemma distinct_addVersion:
  "distinct (map deref vl) \<Longrightarrow> distinct (map deref (addVersion v vl))"
  by (simp add: addVersion_def Contains_iff)

lemma fold_addVersion_values:
  "deref ` set (fold (\<lambda>(v, _). addVersion v) ps acc) = deref ` set acc \<union> deref ` fst ` set ps"
proof (induction ps arbitrary: acc)
  case Nil
  then show ?case by simp
next
  case (Cons p ps)
  obtain v b where p: "p = (v, b)" by (cases p)
  show ?case
    by (simp add: p Cons.IH set_addVersion)
qed

lemma fold_addVersion_subset:
  "set (fold (\<lambda>(v, _). addVersion v) ps acc) \<subseteq> set acc \<union> fst ` set ps"
proof (induction ps arbitrary: acc)
  case Nil
  then show ?case by simp
next
  case (Cons p ps)
  obtain v b where p: "p = (v, b)" by (cases p)
  have "set (fold (\<lambda>(v, _). addVersion v) ps (addVersion v acc))
          \<subseteq> set (addVersion v acc) \<union> fst ` set ps"
    by (rule Cons.IH)
  also have "\<dots> \<subseteq> insert v (set acc) \<union> fst ` set ps"
    using subset_addVersion [of v acc] by blast
  finally show ?case by (simp add: p)
qed

lemma fold_addVersion_distinct:
  "distinct (map deref acc) \<Longrightarrow> distinct (map deref (fold (\<lambda>(v, _). addVersion v) ps acc))"
proof (induction ps arbitrary: acc)
  case Nil
  then show ?case by simp
next
  case (Cons p ps)
  obtain v b where p: "p = (v, b)" by (cases p)
  show ?case
    using Cons.prems by (simp add: p Cons.IH distinct_addVersion)
qed

lemma distinct_map_sort_key: "distinct (map f (sort_key f xs)) = distinct (map f xs)"
  by (induct xs) (simp_all add: distinct_insort_key)

lemma descending_rev_sort_key:
  assumes "distinct (map deref vl)"
  shows "sorted_wrt (\<lambda>a b. b < a) (map deref (rev (sort_key deref vl)))"
proof -
  have "sorted_wrt (<) (map deref (sort_key deref vl))"
    using assms by (simp add: strict_sorted_iff distinct_map_sort_key)
  then show ?thesis
    by (simp add: rev_map [symmetric] sorted_wrt_rev)
qed

lemma Versions_no_edges:
  assumes "\<forall>e\<in>set (libraries index). name (library e) \<noteq> lib"
  shows "Versions ord index h lib = (h\<lparr>vlistObjs := vlistObjs h @ [[]]\<rparr>, length (vlistObjs h))"
proof -
  have "filter (\<lambda>e. name (library e) = lib) (libraries index) = []"
    using assms by (simp add: filter_empty_conv)
  then have "fst ` set (presentVersions index lib) = {}"
    by (simp add: keys_presentVersions sourceVersions_def)
  then have "presentVersions index lib = []"
    by simp
  then show ?thesis
    by (simp add: Versions_eq rangeMap_def)
qed

subsection \<open>The constraints never gain a name\<close>

lemma RefineBody_avail:
  "\<exists>x. availObjs (RefineBody r sub (k, v) h) = modifyAt r (AList.update k x) (availObjs h)"
  by (auto simp: RefineBody_def availPut_def Intersection_def split: option.splits)

lemma fold_RefineBody_avail:
  "\<exists>g. availObjs (fold (RefineBody r sub) es h) = modifyAt r g (availObjs h) \<and>
       (\<forall>m. fst ` set (g m) = fst ` set m \<union> fst ` set es)"
proof (induction es arbitrary: h)
  case Nil
  have "availObjs h = modifyAt r (\<lambda>m. m) (availObjs h)"
    by (simp add: modifyAt_id)
  then show ?case by auto
next
  case (Cons e es)
  obtain k v where e: "e = (k, v)" by (cases e)
  from RefineBody_avail [of r sub k v h] obtain x where
    x: "availObjs (RefineBody r sub (k, v) h) = modifyAt r (AList.update k x) (availObjs h)" ..
  from Cons.IH [of "RefineBody r sub (k, v) h"] obtain g where
    g: "availObjs (fold (RefineBody r sub) es (RefineBody r sub (k, v) h)) =
          modifyAt r g (availObjs (RefineBody r sub (k, v) h))"
      "\<And>m. fst ` set (g m) = fst ` set m \<union> fst ` set es"
    by blast
  have "availObjs (fold (RefineBody r sub) (e # es) h) =
        modifyAt r (\<lambda>m. g (AList.update k x m)) (availObjs h)"
    by (simp add: e g(1) x modifyAt_modifyAt)
  moreover have "fst ` set (g (AList.update k x m)) = fst ` set m \<union> fst ` set (e # es)" for m
    by (auto simp: g(2) e dom_update)
  ultimately show ?case by blast
qed

lemma keys_Refine:
  "fst ` set (availEntries (fst (Refine ord h a sub)) (Some (length (availObjs h)))) =
   fst ` set (availEntries h a)"
proof -
  define h1 where "h1 = h\<lparr>availObjs := availObjs h @ [[]]\<rparr>"
  define es where "es = rangeMap (nameRank ord) (availEntries h1 a)"
  from fold_RefineBody_avail [of "length (availObjs h)" sub es h1] obtain g where
    g: "availObjs (fold (RefineBody (length (availObjs h)) sub) es h1) =
          modifyAt (length (availObjs h)) g (availObjs h1)"
      "\<And>m. fst ` set (g m) = fst ` set m \<union> fst ` set es"
    by blast
  have "availEntries h1 a = availEntries h a"
    using availEntries_newAvail [of h a] by (simp add: newAvail_def h1_def)
  then have "fst ` set es = fst ` set (availEntries h a)"
    by (simp add: es_def)
  moreover have "Refine ord h a sub =
      (fold (RefineBody (length (availObjs h)) sub) es h1, length (availObjs h))"
    by (simp add: Refine_def newAvail_def es_def h1_def)
  then have "availEntries (fst (Refine ord h a sub)) (Some (length (availObjs h))) = g []"
    by (simp add: availEntries_def g(1)) (simp add: h1_def modifyAt_append_new)
  ultimately show ?thesis
    by (simp add: g(2))
qed

lemma availEntries_heapExtends:
  assumes "heapExtends h h'" and "validAvail h avail"
  shows "availEntries h' avail = availEntries h avail"
proof (cases avail)
  case None
  then show ?thesis by (simp add: availEntries_def)
next
  case (Some a)
  with assms(2) have a: "a < length (availObjs h)" by (simp add: validAvail_def)
  from assms(1) have t: "take (length (availObjs h)) (availObjs h') = availObjs h"
    by (simp add: heapExtends_def)
  have "length (availObjs h) \<le> length (availObjs h')"
    using assms(1) by (rule heapExtends_lengths)
  moreover have "availObjs h' ! a = availObjs h ! a"
    using a t by (metis nth_take)
  ultimately show ?thesis
    using a by (simp add: Some availEntries_def nth_default_def)
qed

lemma tryVersion_Recurse_avail:
  assumes r: "tryVersion os index h mapped avail lib rest v = Recurse h' c i n"
    and valid: "validAvail h avail"
  shows "validAvail h' (Some i)"
    and "fst ` set (availEntries h' (Some i)) \<subseteq> fst ` set (availEntries h avail)"
proof -
  define h1 where "h1 = fst (Configuration_Clone (cloneOrder os) h mapped)"
  define h2 where "h2 = fst (Dependencies index h1 lib v)"
  define d where "d = length (availObjs h1)"
  define h3 where "h3 = fold (\<lambda>(l, _) h'. availDelete h' d l)
                          (rangeMap (nameRank (retireOrder os)) (confEntries h2 mapped)) h2"
  define h4 where "h4 = fst (Refine (refineOrder os) h3 avail (Some d))"
  define j where "j = length (availObjs h3)"
  define h5 where "h5 = availDelete h4 j lib"
  define h6 where "h6 = confPut h5 (length (confObjs h)) lib v"
  have e1: "heapExtends h h1"
    unfolding h1_def by (rule heapExtends_Configuration_Clone)
  have e2: "heapExtends h h2"
    unfolding h2_def by (rule heapExtends_trans [OF e1 heapExtends_Dependencies])
  have d: "length (availObjs h) \<le> d"
    unfolding d_def using e1 by (rule heapExtends_lengths)
  have e3: "heapExtends h h3"
    unfolding h3_def using e2 d by (rule heapExtends_fold_availDelete)
  have a3: "availEntries h3 avail = availEntries h avail"
    using e3 valid by (rule availEntries_heapExtends)
  have k4: "fst ` set (availEntries h4 (Some j)) = fst ` set (availEntries h avail)"
    unfolding h4_def j_def using keys_Refine [of "refineOrder os" h3 avail "Some d"] by (simp add: a3)
  have l4: "length (availObjs h4) = Suc j"
    using refInv_Refine [of h3 "refineOrder os" avail "Some d"] by (simp add: h4_def j_def refInv_def)
  have "availEntries h5 (Some j) = AList.delete lib (availEntries h4 (Some j))"
    using l4 by (simp add: h5_def availDelete_def availEntries_def nth_default_modifyAt)
  then have k5: "fst ` set (availEntries h5 (Some j)) \<subseteq> fst ` set (availEntries h avail)"
    using k4 by (auto simp: keys_delete)
  have a6: "availObjs h6 = availObjs h5" and l5: "length (availObjs h5) = Suc j"
    using l4 by (simp_all add: h6_def confPut_def h5_def availDelete_def)
  from r have "h' = h6 \<and> i = j"
    by (auto simp: tryVersion_def case_prod_beta Let_def h1_def [symmetric] h2_def [symmetric]
        d_def [symmetric] h3_def [symmetric] h4_def [symmetric] j_def [symmetric]
        h5_def [symmetric] h6_def [symmetric] split: option.splits if_splits)
  then have h': "h' = h6" and i: "i = j" by simp_all
  show "validAvail h' (Some i)"
    by (simp add: validAvail_def h' i a6 l5)
  have "availEntries h6 (Some j) = availEntries h5 (Some j)"
    by (rule availEntries_cong) (rule a6)
  then show "fst ` set (availEntries h' (Some i)) \<subseteq> fst ` set (availEntries h avail)"
    using k5 by (simp add: h' i)
qed

subsection \<open>Failure, and the depth of the recursion\<close>

lemma tryVersion_Return:
  "tryVersion os index h mapped avail lib rest v = Return h' r \<Longrightarrow> \<exists>e. r = Inl e"
  by (auto simp: tryVersion_def case_prod_beta Let_def split: option.splits if_splits)

lemma findFirstBody_Return_Inr:
  assumes "findFirstBody os index h mapped avail rest = Return h' (Inr c)"
  shows "rest = []"
proof (rule ccontr)
  assume "rest \<noteq> []"
  then obtain lib rest' where rest: "rest = lib # rest'" by (cases rest) auto
  from assms have "\<exists>h1 v. tryVersion os index h1 mapped avail lib rest' v = Return h' (Inr c)"
    by (auto simp: findFirstBody_def rest case_prod_beta split: list.splits)
  then show False using tryVersion_Return by blast
qed

lemma findFirstBody_no_versions:
  assumes "\<forall>e\<in>set (libraries index). name (library e) \<noteq> L"
    and "map_of (availEntries h avail) L = None"
  shows "findFirstBody os index h mapped avail (L # rest) =
           Return (h\<lparr>vlistObjs := vlistObjs h @ [[]]\<rparr>)
                  (Inl (''No compatible versions of '' @ L @ '' found''))"
  using assms(2)
  by (simp add: findFirstBody_def Versions_no_edges [OF assms(1)] vlistAt_def nth_default_beyond)

lemma validAvail_heapExtends:
  "heapExtends h h' \<Longrightarrow> validAvail h avail \<Longrightarrow> validAvail h' avail"
  using heapExtends_lengths(2) [of h h']
  by (auto simp: validAvail_def split: option.splits)

lemma findFirstBody_Recurse_avail:
  assumes r: "findFirstBody os index h mapped avail rest = Recurse h' c i n"
    and valid: "validAvail h avail"
  shows "validAvail h' (Some i)"
    and "fst ` set (availEntries h' (Some i)) \<subseteq> fst ` set (availEntries h avail)"
    and "set (tl rest) \<subseteq> set n"
proof -
  from findFirstBody_Recurse [OF r] obtain lib rest' h1 v where
    rest: "rest = lib # rest'" and e: "heapExtends h h1" and
    t: "tryVersion os index h1 mapped avail lib rest' v = Recurse h' c i n"
    by blast
  have v1: "validAvail h1 avail"
    using e valid by (rule validAvail_heapExtends)
  have a1: "availEntries h1 avail = availEntries h avail"
    using e valid by (rule availEntries_heapExtends)
  show "validAvail h' (Some i)"
    using tryVersion_Recurse_avail(1) [OF t v1] .
  show "fst ` set (availEntries h' (Some i)) \<subseteq> fst ` set (availEntries h avail)"
    using tryVersion_Recurse_avail(2) [OF t v1] by (simp add: a1)
  from tryVersion_Recurse(2) [OF t] show "set (tl rest) \<subseteq> set n"
    by (auto simp: rest)
qed

lemma findFirst_fails:
  "\<forall>e\<in>set (libraries index). name (library e) \<noteq> L \<Longrightarrow>
   L \<in> set rest \<Longrightarrow> validAvail h avail \<Longrightarrow> availEntries h avail = [] \<Longrightarrow>
   \<exists>msg. snd (findFirst ords index h mapped avail rest) = Inl msg"
proof (induction ords index h mapped avail rest rule: findFirst.induct)
  case (1 ords index h mapped avail rest)
  note noedges = "1.prems"(1) and L = "1.prems"(2) and valid = "1.prems"(3) and empty = "1.prems"(4)
  show ?case
  proof (cases "findFirstBody (ords 0) index h mapped avail rest")
    case (Return h' r)
    have "\<exists>msg. r = Inl msg"
    proof (cases r)
      case (Inl msg)
      then show ?thesis by simp
    next
      case (Inr c)
      with Return have "rest = []" by (simp add: findFirstBody_Return_Inr)
      with L show ?thesis by simp
    qed
    with Return show ?thesis
      by (simp add: findFirst.simps [of ords index h mapped avail rest])
  next
    case (Recurse h' c i n)
    from L obtain lib rest' where rest: "rest = lib # rest'"
      by (cases rest) auto
    have "lib \<noteq> L"
    proof
      assume "lib = L"
      with empty have "map_of (availEntries h avail) L = None" by simp
      then have "findFirstBody (ords 0) index h mapped avail (L # rest') =
          Return (h\<lparr>vlistObjs := vlistObjs h @ [[]]\<rparr>)
                 (Inl (''No compatible versions of '' @ L @ '' found''))"
        by (rule findFirstBody_no_versions [OF noedges])
      then have "Recurse h' c i n =
          Return (h\<lparr>vlistObjs := vlistObjs h @ [[]]\<rparr>)
                 (Inl (''No compatible versions of '' @ L @ '' found''))"
        using Recurse rest \<open>lib = L\<close> by (simp only:)
      then show False by simp
    qed
    with L rest have "L \<in> set (tl rest)" by simp
    with findFirstBody_Recurse_avail(3) [OF Recurse valid] have L': "L \<in> set n" by blast
    have v: "validAvail h' (Some i)"
      using findFirstBody_Recurse_avail(1) [OF Recurse valid] .
    have "fst ` set (availEntries h' (Some i)) \<subseteq> {}"
      using findFirstBody_Recurse_avail(2) [OF Recurse valid] empty by simp
    then have e: "availEntries h' (Some i) = []" by simp
    from "1.IH" [OF Recurse noedges L' v e] Recurse show ?thesis
      by (simp add: findFirst.simps [of ords index h mapped avail rest])
  qed
qed

lemma Resolve_fails:
  assumes "\<forall>e\<in>set (libraries index). name (library e) \<noteq> L" and "L \<in> set libs"
  shows "\<exists>msg. snd (Resolve ords index h libs) = Inl msg"
proof -
  have "validAvail (fst (newAvail h)) (Some (snd (newAvail h)))"
    by (simp add: validAvail_def newAvail_def)
  moreover have "availEntries (fst (newAvail h)) (Some (snd (newAvail h))) = []"
    by (simp add: availEntries_def newAvail_def nth_default_beyond)
  ultimately show ?thesis
    using findFirst_fails [OF assms(1) assms(2)] by (simp add: Resolve_def case_prod_beta)
qed

lemma findFirst_no_versions:
  assumes "\<forall>e\<in>set (libraries index). name (library e) \<noteq> L"
    and "map_of (availEntries h avail) L = None"
  shows "findFirst ords index h mapped avail (L # rest) =
           (h\<lparr>vlistObjs := vlistObjs h @ [[]]\<rparr>,
            Inl (''No compatible versions of '' @ L @ '' found''))"
  by (simp add: findFirst.simps [of ords index h mapped avail "L # rest"]
      findFirstBody_no_versions [OF assms])



subsection \<open>The version chosen\<close>











subsection \<open>Every order is the order of a rank\<close>

text \<open>
  A map has one entry for each key. Whatever order \<^verbatim>\<open>range\<close> visits its entries in, some
  rank gives that order.
\<close>

lemma position_nth:
  assumes "distinct (map g xs)" and "i < length xs"
  shows "length (takeWhile (\<lambda>e. g e \<noteq> g (xs ! i)) xs) = i"
proof -
  have "takeWhile (\<lambda>e. g e \<noteq> g (xs ! i)) xs = take i xs"
  proof (rule takeWhile_eq_take_P_nth)
    fix j
    assume j: "j < i" "j < length xs"
    with assms have "map g xs ! j \<noteq> map g xs ! i"
      by (simp add: nth_eq_iff_index_eq del: nth_map)
    with j assms(2) show "g (xs ! j) \<noteq> g (xs ! i)" by simp
  next
    show "\<not> g (xs ! i) \<noteq> g (xs ! i)" by simp
  qed
  with assms(2) show ?thesis by simp
qed

lemma map_position:
  assumes "distinct (map g xs)"
  shows "map (\<lambda>e. length (takeWhile (\<lambda>e'. g e' \<noteq> g e) xs)) xs = [0..<length xs]"
  by (rule nth_equalityI) (simp_all add: position_nth [OF assms])

lemma rangeMap_every_order:
  assumes m: "distinct (map fst m)" and xs: "distinct xs" and eq: "set xs = set m"
  shows "\<exists>rank. rangeMap rank m = xs"
proof -
  define rank where "rank k = length (takeWhile (\<lambda>e. fst e \<noteq> k) xs)" for k
  let ?f = "\<lambda>e. rank (fst e)"
  from m have dm: "distinct m" and inj: "inj_on fst (set m)"
    by (simp_all add: distinct_map)
  from xs inj eq have "distinct (map fst xs)"
    by (simp add: distinct_map)
  then have pos: "map ?f xs = [0..<length xs]"
    unfolding rank_def by (rule map_position)
  then have sx: "sorted (map ?f xs)" and dx: "distinct (map ?f xs)"
    by simp_all
  from dx have injf: "inj_on ?f (set m)"
    by (simp add: distinct_map eq)
  have "sort_key ?f m = xs"
  proof (rule map_sorted_distinct_set_unique [of ?f])
    show "inj_on ?f (set (sort_key ?f m) \<union> set xs)"
      using injf by (simp add: eq)
    show "sorted (map ?f (sort_key ?f m))"
      by (rule sorted_sort_key)
    show "distinct (map ?f (sort_key ?f m))"
      using dm injf by (simp add: distinct_map_sort_key distinct_map)
    show "sorted (map ?f xs)" by (rule sx)
    show "distinct (map ?f xs)" by (rule dx)
    show "set (sort_key ?f m) = set xs" by (simp add: eq)
  qed
  then have "rangeMap rank m = xs"
    by (simp add: rangeMap_def)
  then show ?thesis by blast
qed

subsection \<open>The messages of the errors\<close>

lemma tryVersion_Return_message:
  assumes "tryVersion os index h mapped avail lib rest v = Return h' r"
  shows "(\<exists>d. r = Inl (''No compatible version of '' @ d)) \<or>
         (\<exists>names. r = Inl (''No compatible versions of: '' @ formatNames names))"
  using assms
  by (auto simp: tryVersion_def case_prod_beta Let_def split: option.splits if_splits)

lemma findFirstBody_Return_message:
  assumes "findFirstBody os index h mapped avail rest = Return h' (Inl msg)"
  shows "(\<exists>d. msg = ''No compatible version of '' @ d) \<or>
         (\<exists>names. msg = ''No compatible versions of: '' @ formatNames names) \<or>
         (\<exists>l. msg = ''No compatible versions of '' @ l @ '' found'')"
proof (cases rest)
  case Nil
  with assms show ?thesis by (simp add: findFirstBody_def)
next
  case (Cons lib rest')
  from assms Cons have
    "msg = ''No compatible versions of '' @ lib @ '' found'' \<or>
     (\<exists>h1 v. tryVersion os index h1 mapped avail lib rest' v = Return h' (Inl msg))"
    by (auto simp: findFirstBody_def case_prod_beta split: list.splits)
  then show ?thesis
  proof
    assume "msg = ''No compatible versions of '' @ lib @ '' found''"
    then show ?thesis by blast
  next
    assume "\<exists>h1 v. tryVersion os index h1 mapped avail lib rest' v = Return h' (Inl msg)"
    then obtain h1 v where "tryVersion os index h1 mapped avail lib rest' v = Return h' (Inl msg)"
      by blast
    from tryVersion_Return_message [OF this] show ?thesis
      by (metis Inl_inject)
  qed
qed

lemma findFirst_message:
  "snd (findFirst ords index h mapped avail rest) = Inl msg \<Longrightarrow>
   (\<exists>d. msg = ''No compatible version of '' @ d) \<or>
   (\<exists>names. msg = ''No compatible versions of: '' @ formatNames names) \<or>
   (\<exists>l. msg = ''No compatible versions of '' @ l @ '' found'')"
proof (induction ords index h mapped avail rest rule: findFirst.induct)
  case (1 ords index h mapped avail rest)
  show ?case
  proof (cases "findFirstBody (ords 0) index h mapped avail rest")
    case (Return h' r)
    with "1.prems" have "findFirstBody (ords 0) index h mapped avail rest = Return h' (Inl msg)"
      by (simp add: findFirst.simps [of ords index h mapped avail rest])
    then show ?thesis by (rule findFirstBody_Return_message)
  next
    case (Recurse h' c i n)
    with "1.prems" have "snd (findFirst (\<lambda>k. ords (Suc k)) index h' (Some c) (Some i) n) = Inl msg"
      by (simp add: findFirst.simps [of ords index h mapped avail rest])
    with "1.IH" [OF Recurse] show ?thesis .
  qed
qed

lemma Resolve_message:
  "snd (Resolve ords index h libs) = Inl msg \<Longrightarrow>
   (\<exists>d. msg = ''No compatible version of '' @ d) \<or>
   (\<exists>names. msg = ''No compatible versions of: '' @ formatNames names) \<or>
   (\<exists>l. msg = ''No compatible versions of '' @ l @ '' found'')"
  by (rule findFirst_message [of ords index "fst (newAvail h)" None "Some (snd (newAvail h))" libs])
    (simp add: Resolve_def case_prod_beta)

subsection \<open>Loops that follow different orders\<close>

text \<open>
  On \<open>idxOrders\<close>, \<^verbatim>\<open>Resolve(A, Z)\<close> fails at \<open>P\<close> when every loop follows the entry lists
  and at \<open>R\<close> when every loop visits \<open>Q\<close> first. It fails at \<open>Q\<close> when the loop that
  collects \<^verbatim>\<open>newlibs\<close> visits \<open>P\<close> first and the loop that checks the versions chosen
  visits \<open>Q\<close> first: a run that no single order for all loops gives.
\<close>

lemma Resolve_idxOrders:
  "snd (Resolve ords0 idxOrders emptyHeap [''A'', ''Z'']) = Inl ''No compatible version of P'' \<and>
   snd (Resolve ordsAllQ idxOrders emptyHeap [''A'', ''Z'']) = Inl ''No compatible version of R'' \<and>
   snd (Resolve ordsCheckQ idxOrders emptyHeap [''A'', ''Z'']) = Inl ''No compatible version of Q''"
  by code_simp

section \<open>The claims\<close>

text \<open>
  Claim C9: \<^verbatim>\<open>findFirst\<close> changes neither the configuration \<^verbatim>\<open>mapped\<close> nor the constraints
  \<^verbatim>\<open>avail\<close> it is given, nor the index. Whatever the arguments, whatever the order of
  every loop over a map in every activation, and however the call ends, the store on
  return extends the store of the call: every map and every version list
  that existed at the call is at its address, with the entries it had; the call makes
  new objects and writes to those only. The index is passed by value and has no
  operation that writes to it in \<^verbatim>\<open>findFirst\<close>, \<^verbatim>\<open>Versions\<close> or \<^verbatim>\<open>Dependencies\<close>.
\<close>

theorem findFirst_only_allocates:
  "heapExtends h (fst (findFirst ords index h mapped avail rest))"
proof (induction ords index h mapped avail rest rule: findFirst.induct)
  case (1 ords index h mapped avail rest)
  show ?case
  proof (cases "findFirstBody (ords 0) index h mapped avail rest")
    case (Return h' r)
    with heapExtends_findFirstBody [of h "ords 0" index mapped avail rest] show ?thesis
      by (simp add: findFirst.simps [of ords index h])
  next
    case (Recurse h' c i n)
    from heapExtends_findFirstBody [of h "ords 0" index mapped avail rest] Recurse
    have "heapExtends h h'" by simp
    with "1.IH" [OF Recurse] Recurse show ?thesis
      by (simp add: findFirst.simps [of ords index h] heapExtends_trans)
  qed
qed

text \<open>
  Claim C10: \<^verbatim>\<open>Resolve\<close> without library names returns the \<^verbatim>\<open>nil\<close> configuration and no
  error: the configuration it hands to \<^verbatim>\<open>findFirst\<close> is \<^verbatim>\<open>nil\<close>, and \<^verbatim>\<open>findFirst\<close> returns
  the configuration it was given when the worklist is empty. \<^verbatim>\<open>Clone\<close> of the \<^verbatim>\<open>nil\<close>
  configuration is a new map without entries, which takes an entry as any map does.
\<close>

theorem Resolve_no_libraries:
  "Resolve ords index h [] = (fst (newAvail h), Inr None) \<and>
   findFirst ords index h mapped avail [] = (h, Inr mapped) \<and>
   Configuration_Clone ord h None = (h\<lparr>confObjs := confObjs h @ [[]]\<rparr>, length (confObjs h)) \<and>
   confEntries (fst (Configuration_Clone ord h None)) (Some (snd (Configuration_Clone ord h None))) = [] \<and>
   confEntries (confPut (fst (Configuration_Clone ord h None)) (snd (Configuration_Clone ord h None)) k v)
               (Some (snd (Configuration_Clone ord h None))) = [(k, v)]"
proof -
  have f: "findFirst ords index h' mapped' avail' [] = (h', Inr mapped')" for h' mapped' avail'
    by (simp add: findFirst.simps [of ords index h' mapped' avail' "[]"] findFirstBody_def)
  have c: "Configuration_Clone ord h None = (h\<lparr>confObjs := confObjs h @ [[]]\<rparr>, length (confObjs h))"
    by (simp add: Configuration_Clone_eq confEntries_def rangeMap_def)
  show ?thesis
    by (simp add: Resolve_def f c case_prod_beta confEntries_def confPut_def modifyAt_append_new
        nth_default_beyond)
qed

text \<open>
  Claim C4: \<^verbatim>\<open>Versions(lib)\<close> returns a new list that holds source versions of the edges
  from \<open>lib\<close>, every value among them once and no other, newest first: the values
  of the list are strictly descending, so no two of its elements are equal in value,
  even when two edges hold two objects for one version. (\<^verbatim>\<open>present\<close> is keyed by
  pointers; it is \<^verbatim>\<open>Add\<close>, as the spec gives it, that refuses a value a second time.)
\<close>

theorem Versions_newest_first_by_value:
  assumes "Versions ord index h lib = (h', vl)"
  shows "set (map deref (vlistAt h' vl)) = set (map deref (sourceVersions index lib)) \<and>
         sorted_wrt (\<lambda>a b. b < a) (map deref (vlistAt h' vl)) \<and>
         set (vlistAt h' vl) \<subseteq> set (sourceVersions index lib) \<and>
         vl = length (vlistObjs h) \<and> heapExtends h h'"
proof -
  define ps where "ps = rangeMap (versionRank ord) (presentVersions index lib)"
  define L where "L = fold (\<lambda>(v, _). addVersion v) ps []"
  from assms have h': "h' = h\<lparr>vlistObjs := vlistObjs h @ [rev (sort_key deref L)]\<rparr>"
    and vl: "vl = length (vlistObjs h)"
    by (simp_all add: Versions_eq L_def ps_def)
  have at: "vlistAt h' vl = rev (sort_key deref L)"
    by (simp add: h' vl vlistAt_def)
  have keys: "fst ` set ps = set (sourceVersions index lib)"
    by (simp add: ps_def keys_presentVersions)
  have "deref ` set L = deref ` set (sourceVersions index lib)"
    using fold_addVersion_values [of ps "[]"] by (simp add: L_def keys)
  then have 1: "set (map deref (vlistAt h' vl)) = set (map deref (sourceVersions index lib))"
    by (simp add: at)
  have "distinct (map deref L)"
    unfolding L_def by (rule fold_addVersion_distinct) simp
  then have 2: "sorted_wrt (\<lambda>a b. b < a) (map deref (vlistAt h' vl))"
    unfolding at by (rule descending_rev_sort_key)
  have 3: "set (vlistAt h' vl) \<subseteq> set (sourceVersions index lib)"
    using fold_addVersion_subset [of ps "[]"] by (simp add: at L_def keys)
  have 4: "heapExtends h h'"
    using heapExtends_Versions [of h ord index lib] assms by simp
  show ?thesis using 1 2 3 4 vl by simp
qed

theorem Versions_newest_first_by_value_witness:
  "sorted_wrt (\<lambda>a b. b < a)
     (map deref (vlistAt (fst (Versions ord0 idxDup emptyHeap ''X''))
                         (snd (Versions ord0 idxDup emptyHeap ''X'')))) \<and>
   sourceVersions idxDup ''X'' = [VerPtr 1 (1, 0, 0), VerPtr 3 (1, 0, 0), VerPtr 5 (2, 0, 0)] \<and>
   vlistAt (fst (Versions ord0 idxDup emptyHeap ''X'')) (snd (Versions ord0 idxDup emptyHeap ''X''))
     = [VerPtr 5 (2, 0, 0), VerPtr 1 (1, 0, 0)]"
proof -
  have 1: "sourceVersions idxDup ''X'' = [VerPtr 1 (1, 0, 0), VerPtr 3 (1, 0, 0), VerPtr 5 (2, 0, 0)]"
    by code_simp
  have 2: "vlistAt (fst (Versions ord0 idxDup emptyHeap ''X'')) (snd (Versions ord0 idxDup emptyHeap ''X''))
     = [VerPtr 5 (2, 0, 0), VerPtr 1 (1, 0, 0)]"
    by code_simp
  show ?thesis
    using Versions_newest_first_by_value [OF surjective_pairing, of ord0 idxDup emptyHeap "''X''"] 1 2
    by simp
qed

text \<open>
  Claim C5: \<^verbatim>\<open>Dependencies(lib, v)\<close> takes the edges from \<open>lib\<close> whose source version is
  equal in value to \<open>v\<close>, and no other; the map it returns binds the names these edges
  lead to, each to a list whose values are the values of all versions of that name
  these edges lead to. The map is new, and nothing that existed is changed; the index
  is an argument the operation only reads.
\<close>

theorem Dependencies_union:
  assumes "Dependencies index h lib v = (h', depvers)"
  shows "fst ` set (availEntries h' (Some depvers)) = requiredNames lib v (libraries index) \<and>
         distinct (map fst (availEntries h' (Some depvers))) \<and>
         (\<forall>(d, vl) \<in> set (availEntries h' (Some depvers)).
             deref ` set (vlistAt h' vl) = requiredVersions lib v (libraries index) d) \<and>
         depvers = length (availObjs h) \<and> heapExtends h h'"
proof -
  from assms have h': "h' = fst (Dependencies index h lib v)"
    and d: "depvers = length (availObjs h)"
    using snd_Dependencies [of index h lib v] by simp_all
  have inv: "depInv h lib v (libraries index) h'"
    unfolding h' by (rule depInv_Dependencies)
  let ?m = "availEntries h' (Some depvers)"
  from inv have 1: "fst ` set ?m = requiredNames lib v (libraries index)"
    and 2: "distinct (map fst ?m)"
    and 3: "\<And>k p. (k, p) \<in> set ?m \<Longrightarrow> p < length (vlistObjs h') \<and>
            deref ` set (vlistObjs h' ! p) = requiredVersions lib v (libraries index) k"
    unfolding depInv_def Let_def d by simp_all
  have "deref ` set (vlistAt h' p) = requiredVersions lib v (libraries index) k"
    if "(k, p) \<in> set ?m" for k p
    using 3 [OF that] by (simp add: vlistAt_def nth_default_in)
  then have 4: "\<forall>(d, vl) \<in> set ?m.
      deref ` set (vlistAt h' vl) = requiredVersions lib v (libraries index) d"
    by auto
  have 5: "heapExtends h h'"
    unfolding h' by (rule heapExtends_Dependencies)
  show ?thesis using 1 2 4 5 d by simp
qed

theorem Dependencies_union_witness:
  "availEntries (fst (Dependencies idxDup emptyHeap ''X'' (VerPtr 9 (1, 0, 0)))) (Some 0) = [(''Y'', 0)] \<and>
   requiredVersions ''X'' (VerPtr 9 (1, 0, 0)) (libraries idxDup) ''Y'' = {(1, 0, 0), (2, 0, 0)} \<and>
   deref ` set (vlistAt (fst (Dependencies idxDup emptyHeap ''X'' (VerPtr 9 (1, 0, 0)))) 0)
     = {(1, 0, 0), (2, 0, 0)}"
proof -
  let ?D = "Dependencies idxDup emptyHeap ''X'' (VerPtr 9 (1, 0, 0))"
  have d: "snd ?D = 0"
    by (simp add: emptyHeap_def)
  have 1: "availEntries (fst ?D) (Some 0) = [(''Y'', 0)]"
    by code_simp
  have 2: "requiredVersions ''X'' (VerPtr 9 (1, 0, 0)) (libraries idxDup) ''Y'' = {(1, 0, 0), (2, 0, 0)}"
    by (simp add: requiredVersions_def matches_def idxDup_def AddDependency_def MakeLibraryIndex_def)
  have "(''Y'', 0) \<in> set (availEntries (fst ?D) (Some (snd ?D)))"
    by (simp only: d 1) simp
  moreover have "\<forall>(d, vl) \<in> set (availEntries (fst ?D) (Some (snd ?D))).
      deref ` set (vlistAt (fst ?D) vl) = requiredVersions ''X'' (VerPtr 9 (1, 0, 0)) (libraries idxDup) d"
    using Dependencies_union [OF surjective_pairing, of idxDup emptyHeap "''X''" "VerPtr 9 (1, 0, 0)"]
    by (elim conjE)
  ultimately have 3: "deref ` set (vlistAt (fst ?D) 0) =
      requiredVersions ''X'' (VerPtr 9 (1, 0, 0)) (libraries idxDup) ''Y''"
    by fast
  show ?thesis
    by (intro conjI) (rule 1, rule 2, simp only: 3 2)
qed

text \<open>
  Claim C1: every configuration \<^verbatim>\<open>Resolve\<close> returns is complete. The code breaks it: on
  \<open>idxInv\<close>, \<^verbatim>\<open>Resolve(X, Y)\<close> returns \<open>X\<close> at 1.0.0 with \<open>Y\<close> at 2.0.0, although the only
  version of \<open>Y\<close> that \<open>X\<close> 1.0.0 accepts is 1.0.0. The requirement of \<open>X\<close> is lost in
  \<^verbatim>\<open>Refine\<close> (claim C3), so the candidates of \<open>Y\<close> are all its versions.
\<close>

theorem Resolve_breaks_completeness:
  "snd (Resolve ords0 idxInv emptyHeap [''X'', ''Y'']) = Inr (Some 1) \<and>
   confEntries (fst (Resolve ords0 idxInv emptyHeap [''X'', ''Y''])) (Some 1) =
     [(''X'', VerPtr 1 (1, 0, 0)), (''Y'', VerPtr 3 (2, 0, 0))] \<and>
   requiredVersions ''X'' (VerPtr 1 (1, 0, 0)) (libraries idxInv) ''Y'' = set [(1, 0, 0)] \<and>
   \<not> completeAssignment idxInv (confEntries (fst (Resolve ords0 idxInv emptyHeap [''X'', ''Y''])) (Some 1))"
  by code_simp

text \<open>
  Claim C2: when the first candidate of a library fails, \<^verbatim>\<open>findFirst\<close> tries the next one.
  The code does not: on \<open>idxBack\<close>, \<^verbatim>\<open>Resolve(B)\<close> chooses \<open>B\<close> 1.0.0 and comes to \<open>L\<close>
  with the candidates 2.0.0 and 1.0.0; 2.0.0 requires \<open>B\<close> 2.0.0, and the search ends
  there with an error, while the body of the loop run for 1.0.0 in the same state leads
  to the configuration of \<open>B\<close> 1.0.0 and \<open>L\<close> 1.0.0.
\<close>

theorem findFirst_gives_up_at_first_candidate:
  "snd (Resolve ords0 idxBack emptyHeap [''B'']) = Inl ''No compatible version of B'' \<and>
   (case findFirstBody loops0 idxBack (fst (newAvail emptyHeap)) None (Some 0) [''B''] of
      Return h r \<Rightarrow> False
    | Recurse h c i n \<Rightarrow>
        n = [''L''] \<and>
        map_of (availEntries h (Some i)) ''L'' = None \<and>
        vlistAt (fst (Versions ord0 idxBack h ''L'')) (snd (Versions ord0 idxBack h ''L''))
          = [VerPtr 3 (2, 0, 0), VerPtr 5 (1, 0, 0)] \<and>
        snd (findFirst ords0 idxBack h (Some c) (Some i) n) = Inl ''No compatible version of B'' \<and>
        (case tryVersion loops0 idxBack (fst (Versions ord0 idxBack h ''L'')) (Some c) (Some i)
                ''L'' [] (VerPtr 5 (1, 0, 0)) of
           Return h' r \<Rightarrow> False
         | Recurse h' c' i' n' \<Rightarrow>
             (case findFirst ords0 idxBack h' (Some c') (Some i') n' of
                (h'', r) \<Rightarrow> r = Inr (Some c') \<and>
                  confEntries h'' (Some c') = [(''B'', VerPtr 1 (1, 0, 0)), (''L'', VerPtr 5 (1, 0, 0))])))"
  by code_simp

text \<open>
  Claim C3: the result of \<^verbatim>\<open>Refine\<close> has every name of the receiver and of the incoming
  map. The code keeps the names of the receiver only: the names of the result are
  those of the receiver, whatever the incoming map; in \<open>heapRefine\<close>, refining the map
  at 0 by the map at 1 gives a map that binds \<open>X\<close> to the intersection, the version
  2.0.0, and has no entry for \<open>Y\<close>.
\<close>

theorem Refine_forgets_incoming_names:
  "fst ` set (availEntries (fst (Refine ord h a incoming)) (Some (snd (Refine ord h a incoming))))
     = fst ` set (availEntries h a) \<and>
   availEntries heapRefine (Some 0) = [(''X'', 0)] \<and>
   availEntries heapRefine (Some 1) = [(''X'', 1), (''Y'', 2)] \<and>
   snd (Refine ord0 heapRefine (Some 0) (Some 1)) = 2 \<and>
   availEntries (fst (Refine ord0 heapRefine (Some 0) (Some 1))) (Some 2) = [(''X'', 3)] \<and>
   vlistAt (fst (Refine ord0 heapRefine (Some 0) (Some 1))) 3 = [VerPtr 2 (2, 0, 0)] \<and>
   map_of (availEntries (fst (Refine ord0 heapRefine (Some 0) (Some 1))) (Some 2)) ''Y'' = None"
proof -
  have "availEntries heapRefine (Some 0) = [(''X'', 0)] \<and>
   availEntries heapRefine (Some 1) = [(''X'', 1), (''Y'', 2)] \<and>
   snd (Refine ord0 heapRefine (Some 0) (Some 1)) = 2 \<and>
   availEntries (fst (Refine ord0 heapRefine (Some 0) (Some 1))) (Some 2) = [(''X'', 3)] \<and>
   vlistAt (fst (Refine ord0 heapRefine (Some 0) (Some 1))) 3 = [VerPtr 2 (2, 0, 0)] \<and>
   map_of (availEntries (fst (Refine ord0 heapRefine (Some 0) (Some 1))) (Some 2)) ''Y'' = None"
    by code_simp
  then show ?thesis
    using keys_Refine [of ord h a incoming] by simp
qed

text \<open>
  Claim C6: a library on the worklist with no known version and no entry in the
  constraints makes \<^verbatim>\<open>Resolve\<close> fail with the tagged error \<open>NoVersionsAvailable\<close>; errors
  are tagged values, not strings. As stated it fails: the errors of \<^verbatim>\<open>findFirst\<close> are
  the messages of \<^verbatim>\<open>fmt.Errorf\<close>, and on \<open>idxInv\<close> \<^verbatim>\<open>Resolve(X, Z)\<close> fails with the string
  below.
\<close>

theorem no_versions_error_counterexample:
  "snd (Resolve ords0 idxInv emptyHeap [''X'', ''Z'']) = Inl ''No compatible versions of Z found''"
  by code_simp

text \<open>
  Claim C6, amended: let no edge leave \<open>L\<close>, so that the index knows no version of it.
  When \<^verbatim>\<open>findFirst\<close> takes \<open>L\<close> from the worklist and the constraints have no entry for
  it, the call fails with the message \<^verbatim>\<open>No compatible versions of L found\<close>. A call of
  \<^verbatim>\<open>findFirst\<close> with \<open>L\<close> anywhere on the worklist and constraints without entries fails,
  and so does \<^verbatim>\<open>Resolve\<close> whenever \<open>L\<close> is among the names it is given. An error is a
  message, not a tagged value: every error that \<^verbatim>\<open>findFirst\<close> or \<^verbatim>\<open>Resolve\<close> returns, for
  any index and arguments, is \<^verbatim>\<open>No compatible version of\<close> with a name,
  \<^verbatim>\<open>No compatible versions of:\<close> with a list of names, or \<^verbatim>\<open>No compatible versions of\<close>
  with a name and \<^verbatim>\<open>found\<close>. All this holds for every order of every loop over a map.
\<close>

theorem no_versions_error:
  "((\<forall>e\<in>set (libraries index). name (library e) \<noteq> L) \<longrightarrow>
      (map_of (availEntries h avail) L = None \<longrightarrow>
         snd (findFirst ords index h mapped avail (L # rest)) =
           Inl (''No compatible versions of '' @ L @ '' found'')) \<and>
      (L \<in> set rest \<and> validAvail h avail \<and> availEntries h avail = [] \<longrightarrow>
         (\<exists>msg. snd (findFirst ords index h mapped avail rest) = Inl msg)) \<and>
      (L \<in> set libs \<longrightarrow> (\<exists>msg. snd (Resolve ords index h libs) = Inl msg))) \<and>
   (snd (findFirst ords index h mapped avail rest) = Inl msg \<or>
    snd (Resolve ords index h libs) = Inl msg \<longrightarrow>
      (\<exists>d. msg = ''No compatible version of '' @ d) \<or>
      (\<exists>names. msg = ''No compatible versions of: '' @ formatNames names) \<or>
      (\<exists>l. msg = ''No compatible versions of '' @ l @ '' found''))"
proof (intro conjI impI)
  assume noedges: "\<forall>e\<in>set (libraries index). name (library e) \<noteq> L"
  show "snd (findFirst ords index h mapped avail (L # rest)) =
          Inl (''No compatible versions of '' @ L @ '' found'')"
    if "map_of (availEntries h avail) L = None"
    using findFirst_no_versions [OF noedges that, of ords mapped rest] by simp
  show "\<exists>msg. snd (findFirst ords index h mapped avail rest) = Inl msg"
    if "L \<in> set rest \<and> validAvail h avail \<and> availEntries h avail = []"
    using findFirst_fails [OF noedges, of rest h avail ords mapped] that by simp
  show "\<exists>msg. snd (Resolve ords index h libs) = Inl msg" if "L \<in> set libs"
    using Resolve_fails [OF noedges that] .
next
  assume "snd (findFirst ords index h mapped avail rest) = Inl msg \<or>
          snd (Resolve ords index h libs) = Inl msg"
  then show "(\<exists>d. msg = ''No compatible version of '' @ d) \<or>
      (\<exists>names. msg = ''No compatible versions of: '' @ formatNames names) \<or>
      (\<exists>l. msg = ''No compatible versions of '' @ l @ '' found'')"
    using findFirst_message [of ords index h mapped avail rest msg]
      Resolve_message [of ords index h libs msg] by blast
qed

theorem no_versions_error_witness:
  "snd (findFirst ords0 idxInv emptyHeap None None [''Z'', ''X'']) =
     Inl ''No compatible versions of Z found'' \<and>
   (\<exists>msg. snd (findFirst ords0 idxInv emptyHeap None None [''X'', ''Z'']) = Inl msg) \<and>
   (\<exists>msg. snd (Resolve ords0 idxInv emptyHeap [''X'', ''Z'']) = Inl msg) \<and>
   snd (Resolve ords0 idxBack emptyHeap [''B'']) = Inl ''No compatible version of B'' \<and>
   ((\<exists>d. ''No compatible version of B'' = ''No compatible version of '' @ d) \<or>
    (\<exists>names. ''No compatible version of B'' = ''No compatible versions of: '' @ formatNames names) \<or>
    (\<exists>l. ''No compatible version of B'' = ''No compatible versions of '' @ l @ '' found''))"
proof -
  have 1: "\<forall>e\<in>set (libraries idxInv). name (library e) \<noteq> ''Z''"
    by (simp add: idxInv_def AddDependency_def MakeLibraryIndex_def)
  have 2: "map_of (availEntries emptyHeap None) ''Z'' = None"
    by (simp add: availEntries_def)
  have 3: "''Z'' \<in> set [''X'', ''Z'']"
    by simp
  have 4: "''Z'' \<in> set [''X'', ''Z''] \<and> validAvail emptyHeap None \<and> availEntries emptyHeap None = []"
    by (simp add: validAvail_def availEntries_def)
  have 5: "snd (Resolve ords0 idxBack emptyHeap [''B'']) = Inl ''No compatible version of B''"
    by code_simp
  note T = no_versions_error [of idxInv "''Z''" emptyHeap None ords0 None "[''X'']" "[''X'', ''Z'']",
      THEN conjunct1, THEN mp, OF 1]
  note U = no_versions_error [of idxInv "''Z''" emptyHeap None ords0 None "[''X'', ''Z'']" "[''X'', ''Z'']",
      THEN conjunct1, THEN mp, OF 1]
  note V = no_versions_error [of idxBack _ emptyHeap None ords0 None "[]" "[''B'']"
      "''No compatible version of B''", THEN conjunct2, THEN mp, OF disjI2, OF 5]
  have a: "snd (findFirst ords0 idxInv emptyHeap None None [''Z'', ''X'']) =
     Inl ''No compatible versions of Z found''"
    using T [THEN conjunct1, THEN mp, OF 2] by simp
  note b = U [THEN conjunct2, THEN conjunct1, THEN mp, OF 4]
  note c = T [THEN conjunct2, THEN conjunct2, THEN mp, OF 3]
  from a b c 5 V show ?thesis by (intro conjI)
qed






end
